theory Spec2Isabelle
  imports Main "HOL-Library.AList" "HOL-Library.Sublist" "HOL-Library.Product_Lexorder"
begin

section \<open>The embedding of the program\<close>

subsection \<open>Strings and character classes\<close>

text \<open>
  A Python \<open>str\<close> is a sequence of code points; the embedding writes it as a
  \<open>string\<close>. The ASCII characters are classified as Python classifies them
  (\<open>str.isspace\<close>, and \<open>\w\<close> of the \<open>re\<close> module under
  \<open>re.UNICODE\<close>). The class of a character beyond ASCII comes from the Unicode
  character database, which is not part of the repository: it is the parameter \<open>U\<close>,
  a table that gives every such character one class, so that every result below holds
  for each such table.
\<close>

datatype uclass = UAlnum | USpace | UOther

definition is_ascii :: "char \<Rightarrow> bool" where
  "is_ascii c = ((of_char c :: nat) < 128)"

definition ascii_space :: "char \<Rightarrow> bool" where
  "ascii_space c = (c \<in> set [CHR 0x09, CHR 0x0A, CHR 0x0B, CHR 0x0C, CHR 0x0D,
                              CHR 0x1C, CHR 0x1D, CHR 0x1E, CHR 0x1F, CHR 0x20])"

definition ascii_alnum :: "char \<Rightarrow> bool" where
  "ascii_alnum c = (c \<in> set (''0123456789'' @ ''ABCDEFGHIJKLMNOPQRSTUVWXYZ'' @ ''abcdefghijklmnopqrstuvwxyz''))"

definition isspace :: "(char \<Rightarrow> uclass) \<Rightarrow> char \<Rightarrow> bool" where
  "isspace U c = (if is_ascii c then ascii_space c else U c = USpace)"

definition isalnum :: "(char \<Rightarrow> uclass) \<Rightarrow> char \<Rightarrow> bool" where
  "isalnum U c = (if is_ascii c then ascii_alnum c else U c = UAlnum)"

definition word_char :: "(char \<Rightarrow> uclass) \<Rightarrow> char \<Rightarrow> bool" where
  "word_char U c = (isalnum U c \<or> c = CHR ''_'')"

definition name_char :: "(char \<Rightarrow> uclass) \<Rightarrow> char \<Rightarrow> bool" where
  "name_char U c = (word_char U c \<or> c = CHR ''-'' \<or> c = CHR ''.'')"

text \<open>
  \<open>re.sub(r"[...]+", repl, s)\<close>: every maximal run of characters of the class \<open>P\<close>
  is replaced by \<open>repl\<close>, from left to right.
\<close>

function re_sub_plus :: "(char \<Rightarrow> bool) \<Rightarrow> string \<Rightarrow> string \<Rightarrow> string" where
  "re_sub_plus P repl [] = []"
| "re_sub_plus P repl (c # cs) =
     (if P c then repl @ re_sub_plus P repl (dropWhile P cs) else c # re_sub_plus P repl cs)"
  by pat_completeness auto
termination
  by (relation "measure (\<lambda>(P, repl, s). length s)") (auto simp: less_Suc_eq_le length_dropWhile_le)

text \<open>\<open>str.strip\<close>: the characters of a class are dropped at both ends.\<close>

definition lstrip :: "(char \<Rightarrow> bool) \<Rightarrow> string \<Rightarrow> string" where
  "lstrip P s = dropWhile P s"

definition rstrip :: "(char \<Rightarrow> bool) \<Rightarrow> string \<Rightarrow> string" where
  "rstrip P s = rev (dropWhile P (rev s))"

definition strip :: "(char \<Rightarrow> bool) \<Rightarrow> string \<Rightarrow> string" where
  "strip P s = lstrip P (rstrip P s)"

subsection \<open>The name sanitizer (utils\_bip.py, \<open>safe_name\<close>)\<close>

text \<open>
  \<^verbatim>\<open>
  def safe_name(name: str) -> str:
      name = (name or "").strip()
      name = re.sub(r"[^\w\-.]+", "_", name, flags=re.UNICODE)
      name = re.sub(r"_+", "_", name)
      return name.strip("._") or "unnamed"
  \<close>
  On a \<open>str\<close> argument \<open>name or ""\<close> is \<open>name\<close> itself.
\<close>

definition in_chars :: "string \<Rightarrow> char \<Rightarrow> bool" where
  "in_chars cs c = (c \<in> set cs)"

definition safe_name :: "(char \<Rightarrow> uclass) \<Rightarrow> string \<Rightarrow> string" where
  "safe_name U name =
     (let n1 = strip (isspace U) name;
          n2 = re_sub_plus (\<lambda>c. \<not> name_char U c) ''_'' n1;
          n3 = re_sub_plus (\<lambda>c. c = CHR ''_'') ''_'' n2;
          n4 = strip (in_chars ''._'') n3
      in if n4 = [] then ''unnamed'' else n4)"


text \<open>
  What a sanitized name looks like: not empty, made of word characters, hyphens and
  dots only, with no two underscores in a row and neither a dot nor an underscore at
  either end.
\<close>

fun no_double_us :: "string \<Rightarrow> bool" where
  "no_double_us (a # b # cs) = (\<not> (a = CHR ''_'' \<and> b = CHR ''_'') \<and> no_double_us (b # cs))"
| "no_double_us _ = True"

definition sanitized :: "(char \<Rightarrow> uclass) \<Rightarrow> string \<Rightarrow> bool" where
  "sanitized U r = (r \<noteq> [] \<and> list_all (name_char U) r \<and> no_double_us r \<and>
     \<not> in_chars ''._'' (hd r) \<and> \<not> in_chars ''._'' (last r))"

subsection \<open>Paths (\<open>pathlib\<close>, POSIX flavour)\<close>

text \<open>
  A \<open>pathlib\<close> path is kept as \<open>pathlib\<close> keeps it: whether it is anchored
  at the root, and its components. \<open>Path(s)\<close> splits \<open>s\<close> at the separators and
  drops empty components and \<open>"."\<close>; it does not resolve \<open>".."\<close>. (A root
  written with exactly two slashes is read as the plain root.)
\<close>

datatype path = Path (absolute: bool) (comps: "string list")

fun split_on :: "char \<Rightarrow> string \<Rightarrow> string list" where
  "split_on d [] = [[]]"
| "split_on d (c # cs) =
     (if c = d then [] # split_on d cs
      else (case split_on d cs of [] \<Rightarrow> [[c]] | w # ws \<Rightarrow> (c # w) # ws))"

fun join :: "string \<Rightarrow> string list \<Rightarrow> string" where
  "join sep [] = []"
| "join sep [x] = x"
| "join sep (x # y # ys) = x @ sep @ join sep (y # ys)"

definition Path_of_str :: "string \<Rightarrow> path" where
  "Path_of_str s =
     Path (s \<noteq> [] \<and> hd s = CHR ''/'')
          (filter (\<lambda>c. c \<noteq> [] \<and> c \<noteq> ''.'') (split_on (CHR ''/'') s))"

text \<open>
  \<open>p / q\<close>: an anchored right operand replaces the left one. \<open>Path(*args)\<close>
  joins its arguments in the same way, starting from the empty path.
\<close>

definition pdiv :: "path \<Rightarrow> path \<Rightarrow> path" where
  "pdiv p q = (if absolute q then q else Path (absolute p) (comps p @ comps q))"

definition Path_of_args :: "string list \<Rightarrow> path" where
  "Path_of_args args = foldl (\<lambda>p s. pdiv p (Path_of_str s)) (Path False []) args"

text \<open>
  \<open>p.parts\<close> (the root is a part of an anchored path), \<open>p.parent\<close>,
  \<open>p.as_posix()\<close> and \<open>p.name\<close>.
\<close>

definition py_parts :: "path \<Rightarrow> string list" where
  "py_parts p = (if absolute p then ''/'' # comps p else comps p)"

definition parent :: "path \<Rightarrow> path" where
  "parent p = Path (absolute p) (butlast (comps p))"

definition as_posix :: "path \<Rightarrow> string" where
  "as_posix p =
     (if absolute p then CHR ''/'' # join ''/'' (comps p)
      else if comps p = [] then ''.'' else join ''/'' (comps p))"

definition path_name :: "path \<Rightarrow> string" where
  "path_name p = (if comps p = [] then [] else last (comps p))"

subsection \<open>The ancestor walk (app.py, \<open>walk_up_rel_paths\<close>)\<close>

text \<open>
  \<^verbatim>\<open>
  def walk_up_rel_paths(rel_path: Path):
      cur = rel_path
      while True:
          yield cur.as_posix()
          if cur == Path("."):
              break
          cur = cur.parent if cur.parent != cur else Path(".")
  \<close>
  The generator is embedded as the list of the values it yields. The recursion is the
  loop; it ends because every round drops a component, or leaves the bare root for
  \<open>Path(".")\<close>.
\<close>

function walk_up_rel_paths :: "path \<Rightarrow> string list" where
  "walk_up_rel_paths cur =
     as_posix cur #
     (if cur = Path_of_str ''.'' then []
      else walk_up_rel_paths (if parent cur \<noteq> cur then parent cur else Path_of_str ''.''))"
  by pat_completeness auto
termination
proof (relation "measure (\<lambda>p. length (comps p) + (if absolute p then 1 else 0))")
  show "wf (measure (\<lambda>p. length (comps p) + (if absolute p then 1 else 0)))" by simp
next
  fix cur :: path
  assume ne: "cur \<noteq> Path_of_str ''.''"
  obtain a ps where cur: "cur = Path a ps" by (cases cur) 
  have dot: "Path_of_str ''.'' = Path False []" by (simp add: Path_of_str_def)
  show "(if parent cur \<noteq> cur then parent cur else Path_of_str ''.'', cur)
      \<in> measure (\<lambda>p. length (comps p) + (if absolute p then 1 else 0))"
  proof (cases "ps = []")
    case True
    then show ?thesis using ne cur dot by (auto simp: parent_def)
  next
    case False
    then have "butlast ps \<noteq> ps" by (metis append_butlast_last_id append_self_conv list.distinct(1))
    then show ?thesis using False cur by (auto simp: parent_def)
  qed
qed

declare walk_up_rel_paths.simps [simp del]

subsection \<open>Sanitizing a relative path (utils\_bip.py, \<open>safe_path_from_rel\<close>)\<close>

text \<open>
  \<^verbatim>\<open>
  def safe_path_from_rel(rel_dir: Path) -> Path:
      parts: List[str] = []
      for part in rel_dir.parts:
          if part in (".", ""):
              continue
          parts.append(safe_name(part))
      return Path(*parts) if parts else Path(".")
  \<close>
\<close>

definition safe_path_from_rel :: "(char \<Rightarrow> uclass) \<Rightarrow> path \<Rightarrow> path" where
  "safe_path_from_rel U rel_dir =
     (let parts = map (safe_name U) (filter (\<lambda>part. \<not> (part \<in> set [''.'', ''''])) (py_parts rel_dir))
      in if parts \<noteq> [] then Path_of_args parts else Path_of_str ''.'')"

text \<open>
  A component as \<open>pathlib\<close> produces them: not empty, not \<open>"."\<close>, without a
  separator. \<open>resolve\<close> is what the file system makes of the components of an
  anchored path: \<open>".."\<close> steps back to the parent (and stays at the root).
\<close>

definition valid_comp :: "string \<Rightarrow> bool" where
  "valid_comp c = (c \<noteq> [] \<and> c \<noteq> ''.'' \<and> CHR ''/'' \<notin> set c)"

definition resolve_step :: "string list \<Rightarrow> string \<Rightarrow> string list" where
  "resolve_step acc c = (if c = ''..'' then butlast acc else acc @ [c])"

definition resolve :: "string list \<Rightarrow> string list" where
  "resolve cs = foldl resolve_step [] cs"

subsection \<open>The file system\<close>

text \<open>
  The working tree is a finite table from paths to what is there: a directory, or a
  file with its bytes. The root and the current directory (the paths without
  components) are always directories. An operation that raises in Python returns the
  exception as a value.
\<close>

datatype error = FileExistsError | FileNotFoundError | NotADirectoryError | IsADirectoryError |
  XMLSyntaxError | ValueError | KeyError | BadZipFile

datatype node = Dir | File string

type_synonym fs = "(path \<times> node) list"

definition lookup :: "fs \<Rightarrow> path \<Rightarrow> node option" where
  "lookup fs p = (if comps p = [] then Some Dir else map_of fs p)"

definition path_exists :: "fs \<Rightarrow> path \<Rightarrow> bool" where
  "path_exists fs p = (lookup fs p \<noteq> None)"

definition is_dir :: "fs \<Rightarrow> path \<Rightarrow> bool" where
  "is_dir fs p = (lookup fs p = Some Dir)"

text \<open>
  \<open>p.mkdir(parents=True, exist_ok=True)\<close>: an existing directory is left alone, a
  file in the way (at \<open>p\<close> or above it) is an error, and missing ancestors are
  created first.
\<close>

function mkdir_parents :: "fs \<Rightarrow> path \<Rightarrow> error + fs" where
  "mkdir_parents fs p =
     (case lookup fs p of
        Some Dir \<Rightarrow> Inr fs
      | Some (File _) \<Rightarrow> Inl FileExistsError
      | None \<Rightarrow>
          (case lookup fs (parent p) of
             Some Dir \<Rightarrow> Inr (AList.update p Dir fs)
           | Some (File _) \<Rightarrow> Inl NotADirectoryError
           | None \<Rightarrow>
               (case mkdir_parents fs (parent p) of
                  Inl e \<Rightarrow> Inl e
                | Inr fs' \<Rightarrow> Inr (AList.update p Dir fs'))))"
  by pat_completeness auto
termination
proof (relation "measure (\<lambda>(fs, p). length (comps p))")
  show "wf (measure (\<lambda>(fs, p). length (comps p)))" by simp
next
  fix fs :: fs and p :: path
  assume "lookup fs p = None"
  then have "comps p \<noteq> []" by (auto simp: lookup_def split: if_splits)
  then show "((fs, parent p), (fs, p)) \<in> measure (\<lambda>(fs, p). length (comps p))"
    by (simp add: parent_def)
qed

declare mkdir_parents.simps [simp del]

text \<open>
  Writing a file (\<open>open(p, "wb")\<close>, \<open>write_bytes\<close>, \<open>write_text\<close>) replaces
  what the file held; the directory of the file must be there.
\<close>

definition write_file :: "fs \<Rightarrow> path \<Rightarrow> string \<Rightarrow> error + fs" where
  "write_file fs p data =
     (case lookup fs p of
        Some Dir \<Rightarrow> Inl IsADirectoryError
      | _ \<Rightarrow>
          (case lookup fs (parent p) of
             Some Dir \<Rightarrow> Inr (AList.update p (File data) fs)
           | Some (File _) \<Rightarrow> Inl NotADirectoryError
           | None \<Rightarrow> Inl FileNotFoundError))"

text \<open>The entry named \<open>c\<close> of the directory \<open>d\<close>.\<close>

definition child :: "path \<Rightarrow> string \<Rightarrow> path" where
  "child d c = Path (absolute d) (comps d @ [c])"

subsection \<open>Unique folders (utils\_bip.py, \<open>unique_subdir\<close>)\<close>

text \<open>\<open>str(i)\<close> of a natural number: its decimal digits.\<close>

function str_nat :: "nat \<Rightarrow> string" where
  "str_nat n = (if n < 10 then [''0123456789'' ! n] else str_nat (n div 10) @ [''0123456789'' ! (n mod 10)])"
  by pat_completeness auto
termination
  by (relation "measure id") auto

declare str_nat.simps [simp del]

text \<open>
  The loop that looks for a free name,
  \<^verbatim>\<open>
      i = 1
      while target.exists():
          target = <the i-th candidate>
          i += 1
  \<close>
  with the candidates as a function of \<open>i\<close>. It ends only when some candidate is
  free, so it is a partial function: \<open>None\<close> stands for a loop that does not end.
\<close>

partial_function (option) first_free :: "fs \<Rightarrow> (nat \<Rightarrow> path) \<Rightarrow> path \<Rightarrow> nat \<Rightarrow> path option" where
  "first_free fs cand target i =
     (if path_exists fs target then first_free fs cand (cand i) (Suc i) else Some target)"

declare first_free.simps [code]

text \<open>
  \<^verbatim>\<open>
  def unique_subdir(parent: Path, name: str) -> Path:
      base = safe_name(name)
      target = parent / base
      i = 1
      while target.exists():
          target = parent / f"{base}_{i}"
          i += 1
      target.mkdir(parents=True, exist_ok=True)
      return target
  \<close>
  The result is the returned path with the file system after the call.
\<close>

definition unique_subdir :: "(char \<Rightarrow> uclass) \<Rightarrow> fs \<Rightarrow> path \<Rightarrow> string \<Rightarrow> (error + path \<times> fs) option" where
  "unique_subdir U fs parent_dir name =
     (let base = safe_name U name in
      case first_free fs (\<lambda>i. pdiv parent_dir (Path_of_str (base @ ''_'' @ str_nat i)))
             (pdiv parent_dir (Path_of_str base)) 1 of
        None \<Rightarrow> None
      | Some target \<Rightarrow>
          (case mkdir_parents fs target of
             Inl e \<Rightarrow> Some (Inl e)
           | Inr fs' \<Rightarrow> Some (Inr (target, fs'))))"

subsection \<open>The layout writer (utils\_bip.py, \<open>write_sql_otbi\<close>)\<close>

text \<open>
  \<open>write_text(s, encoding="utf-8")\<close> stores the UTF-8 bytes of \<open>s\<close>; a character
  is read as the code point of its number, so one beyond ASCII takes two bytes.
\<close>

definition utf8_encode :: "string \<Rightarrow> string" where
  "utf8_encode s =
     concat (map (\<lambda>c. if is_ascii c then [c]
                        else [char_of (192 + (of_char c :: nat) div 64),
                              char_of (128 + (of_char c :: nat) mod 64)]) s)"

definition write_text :: "fs \<Rightarrow> path \<Rightarrow> string \<Rightarrow> error + fs" where
  "write_text fs p s = write_file fs p (utf8_encode s)"

text \<open>
  \<^verbatim>\<open>
  def write_sql_otbi(out_dir, datasets, valuesets, header_title=None):
      created: List[Path] = []
      out_dir.mkdir(parents=True, exist_ok=True)
      header = ""
      if header_title:
          header = (f"-- {header_title}\n")
      for name, sql in datasets:
          p = out_dir / f"{name}.sql"
          p.write_text(header + sql.strip() + "\n", encoding="utf-8")
          created.append(p)
      for vid, sql in valuesets:
          p = out_dir / f"lv_{vid}.sql"
          p.write_text(header + sql.strip() + "\n", encoding="utf-8")
          created.append(p)
      return created
  \<close>
  The two loops are one function of the prefix of the file name (\<open>""\<close> and
  \<open>"lv_"\<close>), run on the list of created paths and the file system.
\<close>

definition sql_header :: "string option \<Rightarrow> string" where
  "sql_header header_title =
     (case header_title of None \<Rightarrow> [] | Some t \<Rightarrow> if t = [] then [] else ''-- '' @ t @ [CHR 0x0A])"

fun write_entries ::
  "(char \<Rightarrow> uclass) \<Rightarrow> path \<Rightarrow> string \<Rightarrow> string \<Rightarrow> (string \<times> string) list \<Rightarrow>
   path list \<times> fs \<Rightarrow> error + path list \<times> fs" where
  "write_entries U out_dir header pre [] st = Inr st"
| "write_entries U out_dir header pre ((name, sql) # rest) (created, fs) =
     (let p = pdiv out_dir (Path_of_str (pre @ name @ ''.sql'')) in
      case write_text fs p (header @ strip (isspace U) sql @ [CHR 0x0A]) of
        Inl e \<Rightarrow> Inl e
      | Inr fs' \<Rightarrow> write_entries U out_dir header pre rest (created @ [p], fs'))"

definition write_sql_otbi ::
  "(char \<Rightarrow> uclass) \<Rightarrow> fs \<Rightarrow> path \<Rightarrow> (string \<times> string) list \<Rightarrow> (string \<times> string) list \<Rightarrow>
   string option \<Rightarrow> error + path list \<times> fs" where
  "write_sql_otbi U fs out_dir datasets valuesets header_title =
     (case mkdir_parents fs out_dir of
        Inl e \<Rightarrow> Inl e
      | Inr fs0 \<Rightarrow>
          (let header = sql_header header_title in
           case write_entries U out_dir header [] datasets ([], fs0) of
             Inl e \<Rightarrow> Inl e
           | Inr st \<Rightarrow> write_entries U out_dir header ''lv_'' valuesets st))"

text \<open>
  What a call is meant to write, in the order of the writes: for every entry, the file
  of its name directly in the root, and the bytes of its text. After a list of writes
  a path holds what the last write to it stored.
\<close>

definition planned_writes ::
  "(char \<Rightarrow> uclass) \<Rightarrow> path \<Rightarrow> string \<Rightarrow> string \<Rightarrow> (string \<times> string) list \<Rightarrow> (path \<times> string) list" where
  "planned_writes U out_dir header pre es =
     map (\<lambda>(name, sql). (child out_dir (pre @ name @ ''.sql''),
                          utf8_encode (header @ strip (isspace U) sql @ [CHR 0x0A]))) es"

definition after_writes :: "fs \<Rightarrow> (path \<times> string) list \<Rightarrow> path \<Rightarrow> node option" where
  "after_writes fs ws q =
     (case map_of (rev ws) q of Some data \<Rightarrow> Some (File data) | None \<Rightarrow> lookup fs q)"

subsection \<open>XML trees and the XPath queries (\<open>lxml\<close>)\<close>

text \<open>
  An element as \<open>lxml\<close> presents it: the local name of its tag, its attributes,
  its \<open>text\<close> (the text before its first child, if any) and its child elements.
  Parsing bytes into a tree is \<open>lxml\<close>'s work and a parameter of the functions
  that parse: \<open>None\<close> stands for a document the recovering parser gives up on.
\<close>

datatype xml = Element (local_name: string) (attrib: "(string \<times> string) list")
  (etext: "string option") (children: "xml list")

text \<open>
  The elements below an element, in document order (an element before what it
  holds). The root is not among them.
\<close>

fun descendants :: "xml \<Rightarrow> xml list" where
  "descendants (Element l a t cs) = concat (map (\<lambda>c. c # descendants c) cs)"

text \<open>
  The XPath queries of the program have two shapes. The first,
  \<^verbatim>\<open>.//*[local-name()='outer']/*[local-name()='inner']\<close>, selects the elements
  named \<open>inner\<close> whose parent is named \<open>outer\<close> and lies below the context
  element; \<open>.//*\<close> does not reach the context element itself, so the children of
  the root are not selected. The result is in document order. \<open>select_under\<close>
  walks one subtree, told whether the parent of its root counts as an \<open>outer\<close>.
\<close>

fun select_under :: "string \<Rightarrow> string \<Rightarrow> bool \<Rightarrow> xml \<Rightarrow> xml list" where
  "select_under outer inner in_outer (Element l a t cs) =
     (if in_outer \<and> l = inner then [Element l a t cs] else []) @
     concat (map (select_under outer inner (l = outer)) cs)"

definition xpath_children_of :: "string \<Rightarrow> string \<Rightarrow> xml \<Rightarrow> xml list" where
  "xpath_children_of outer inner root = concat (map (select_under outer inner False) (children root))"

text \<open>
  The second shape, \<^verbatim>\<open>.//*[local-name()='name']/@attr\<close>: the values of the
  attribute on the elements of that name below the root that have it, in document
  order.
\<close>

definition xpath_attr_of :: "string \<Rightarrow> string \<Rightarrow> xml \<Rightarrow> string list" where
  "xpath_attr_of name attr root =
     List.map_filter (\<lambda>e. map_of (attrib e) attr) (filter (\<lambda>e. local_name e = name) (descendants root))"

subsection \<open>The data-model parser (utils\_bip.py, \<open>parse_datamodel_xdm\<close>)\<close>

text \<open>
  \<^verbatim>\<open>
  datasets: List[Tuple[str, str]] = []
  for ds in root.xpath(".//*[local-name()='dataSets']/*[local-name()='dataSet']"):
      ds_name = safe_name(ds.get("name") or "Dataset")
      sql_nodes = ds.xpath("./*[local-name()='sql']")
      sql_texts = [(sn.text or "").strip() for sn in sql_nodes if (sn.text or "").strip()]
      if sql_texts:
          datasets.append((ds_name, "\n\n".join(sql_texts)))
  \<close>
  and the same for the value sets, with \<open>valueSets\<close>, \<open>valueSet\<close>, the
  attribute \<open>id\<close> and the default \<open>"ValueSet"\<close>. \<open>get_or e attr dflt\<close> is
  \<open>e.get(attr) or dflt\<close>: the default also stands in for an empty attribute.
\<close>

definition get_or :: "xml \<Rightarrow> string \<Rightarrow> string \<Rightarrow> string" where
  "get_or e attr dflt = (case map_of (attrib e) attr of None \<Rightarrow> dflt | Some v \<Rightarrow> if v = [] then dflt else v)"

definition sql_texts :: "(char \<Rightarrow> uclass) \<Rightarrow> xml \<Rightarrow> string list" where
  "sql_texts U e =
     map (\<lambda>sn. strip (isspace U) (case etext sn of None \<Rightarrow> [] | Some t \<Rightarrow> t))
       (filter (\<lambda>sn. strip (isspace U) (case etext sn of None \<Rightarrow> [] | Some t \<Rightarrow> t) \<noteq> [])
          (filter (\<lambda>c. local_name c = ''sql'') (children e)))"

definition named_sql :: "(char \<Rightarrow> uclass) \<Rightarrow> string \<Rightarrow> string \<Rightarrow> string \<Rightarrow> string \<Rightarrow> xml \<Rightarrow> (string \<times> string) list" where
  "named_sql U outer inner attr dflt root =
     List.map_filter
       (\<lambda>ds. let ds_name = safe_name U (get_or ds attr dflt);
                  texts = sql_texts U ds
              in if texts \<noteq> [] then Some (ds_name, join [CHR 0x0A, CHR 0x0A] texts) else None)
       (xpath_children_of outer inner root)"

definition parse_datamodel_xdm ::
  "(char \<Rightarrow> uclass) \<Rightarrow> (string \<Rightarrow> xml option) \<Rightarrow> fs \<Rightarrow> path \<Rightarrow>
   (error + (string \<times> string) list \<times> (string \<times> string) list)" where
  "parse_datamodel_xdm U parser fs xdm_path =
     (case lookup fs xdm_path of
        None \<Rightarrow> Inl FileNotFoundError
      | Some Dir \<Rightarrow> Inl IsADirectoryError
      | Some (File data) \<Rightarrow>
          (case parser data of
             None \<Rightarrow> Inl XMLSyntaxError
           | Some root \<Rightarrow>
               Inr (named_sql U ''dataSets'' ''dataSet'' ''name'' ''Dataset'' root,
                    named_sql U ''valueSets'' ''valueSet'' ''id'' ''ValueSet'' root)))"

text \<open>
  For the statements: the trimmed text of an SQL element; the paths of the files of
  a list of named SQL texts; and, following the words of the specification, every
  element named \<open>inner\<close> whose parent is named \<open>outer\<close>, the root counted as
  a parent too.
\<close>

definition sql_paths :: "path \<Rightarrow> string \<Rightarrow> (string \<times> string) list \<Rightarrow> path list" where
  "sql_paths out_dir pre es = map (\<lambda>(name, sql). child out_dir (pre @ name @ ''.sql'')) es"

definition trimmed_text :: "(char \<Rightarrow> uclass) \<Rightarrow> xml \<Rightarrow> string" where
  "trimmed_text U sn = strip (isspace U) (case etext sn of None \<Rightarrow> [] | Some t \<Rightarrow> t)"

definition elements_under :: "string \<Rightarrow> string \<Rightarrow> xml \<Rightarrow> xml list" where
  "elements_under outer inner root = select_under outer inner False root"

subsection \<open>More on strings, and archives\<close>

text \<open>
  \<open>str.lower\<close>: the ASCII letters are lowered as Python lowers them; what a
  character beyond ASCII becomes is the parameter \<open>L\<close>, a table of the Unicode
  database (a lower-cased character can be several characters).
\<close>

definition ascii_lower :: "char \<Rightarrow> char" where
  "ascii_lower c =
     (case map_of (zip ''ABCDEFGHIJKLMNOPQRSTUVWXYZ'' ''abcdefghijklmnopqrstuvwxyz'') c of
        Some l \<Rightarrow> l | None \<Rightarrow> c)"

definition lower :: "(char \<Rightarrow> string) \<Rightarrow> string \<Rightarrow> string" where
  "lower L s = concat (map (\<lambda>c. if is_ascii c then [ascii_lower c] else L c) s)"

definition endswith :: "string \<Rightarrow> string \<Rightarrow> bool" where
  "endswith s suf = (length suf \<le> length s \<and> drop (length s - length suf) s = suf)"

definition startswith :: "string \<Rightarrow> string \<Rightarrow> bool" where
  "startswith s pre = (take (length pre) s = pre)"

definition count_char :: "char \<Rightarrow> string \<Rightarrow> nat" where
  "count_char c s = length (filter (\<lambda>x. x = c) s)"

text \<open>
  An open archive (\<open>zipfile.ZipFile\<close>) is the list of its members in archive
  order, each with its name and bytes. \<open>namelist()\<close> lists every member; reading a
  name reads the last member of that name. Decoding the bytes of a file into an
  archive is \<open>zipfile\<close>'s work and a parameter of the functions that open one:
  \<open>None\<close> stands for bytes that are not a readable archive.
\<close>

type_synonym zip = "(string \<times> string) list"

definition namelist :: "zip \<Rightarrow> string list" where
  "namelist z = map fst z"

definition zip_read :: "zip \<Rightarrow> string \<Rightarrow> string option" where
  "zip_read z n = map_of (rev z) n"

subsection \<open>The report-reference reader (app.py, \<open>read_report_datamodel_url\<close>)\<close>

text \<open>
  \<^verbatim>\<open>
  def read_report_datamodel_url(xdo_file: Path) -> Optional[str]:
      """
      Open report definition inside a .xdoz (zip) and get <dataModel url="...">.
      Tries common names: report.xdo, *_report.xdo, or any *.xdo as fallback.
      """
      try:
          with zipfile.ZipFile(xdo_file) as zf:
              names = zf.namelist()
              candidates = [n for n in names if n.lower().endswith("report.xdo")
                                             or n.lower().endswith("_report.xdo")]
              if not candidates:
                  candidates = [n for n in names if n.lower().endswith(".xdo")]
              if not candidates:
                  return None
              candidates.sort(key=lambda s: (s.count("/"), len(s)))
              with zf.open(candidates[0]) as f:
                  data = f.read()
          parser = etree.XMLParser(remove_blank_text=True, recover=True)
          root = etree.fromstring(data, parser=parser)
          dm_nodes = root.xpath(".//*[local-name()='dataModel']/@url")
          return dm_nodes[0] if dm_nodes else None
      except Exception as e:
          log.warning(...)
          return None
  \<close>
  Every exception ends in \<open>return None\<close>, so each failure of the model (no such
  file, bytes that are no archive, a document the parser gives up on) is the result
  \<open>None\<close>. The sort is stable, as Python's is.
\<close>

definition xdo_candidates :: "(char \<Rightarrow> string) \<Rightarrow> string list \<Rightarrow> string list" where
  "xdo_candidates L names =
     (let candidates = filter (\<lambda>n. endswith (lower L n) ''report.xdo'' \<or>
                                    endswith (lower L n) ''_report.xdo'') names
      in if candidates = [] then filter (\<lambda>n. endswith (lower L n) ''.xdo'') names else candidates)"

definition depth_then_length :: "string \<Rightarrow> nat \<times> nat" where
  "depth_then_length s = (count_char (CHR ''/'') s, length s)"

definition read_report_datamodel_url ::
  "(char \<Rightarrow> string) \<Rightarrow> (string \<Rightarrow> zip option) \<Rightarrow> (string \<Rightarrow> xml option) \<Rightarrow> fs \<Rightarrow> path \<Rightarrow> string option" where
  "read_report_datamodel_url L unzip parser fs xdo_file =
     (case lookup fs xdo_file of
        Some (File bytes) \<Rightarrow>
          (case unzip bytes of
             None \<Rightarrow> None
           | Some zf \<Rightarrow>
               (let names = namelist zf;
                    candidates = xdo_candidates L names
                in if candidates = [] then None
                   else (case zip_read zf (hd (sort_key depth_then_length candidates)) of
                           None \<Rightarrow> None
                         | Some data \<Rightarrow>
                             (case parser data of
                                None \<Rightarrow> None
                              | Some root \<Rightarrow>
                                  (case xpath_attr_of ''dataModel'' ''url'' root of
                                     [] \<Rightarrow> None
                                   | u # _ \<Rightarrow> Some u)))))
      | _ \<Rightarrow> None)"

text \<open>
  For the statements. The first of the elements of a list that have the least key;
  the definition file in these words: among the members whose lower-cased name ends
  with \<open>report.xdo\<close> if there is one, else among those that end with \<open>.xdo\<close>,
  the first of those with the fewest separators and then the shortest name; and the
  first value of an attribute on the elements of a name below the root.
\<close>

fun first_minimal :: "('a \<Rightarrow> 'k::linorder) \<Rightarrow> 'a list \<Rightarrow> 'a option" where
  "first_minimal key [] = None"
| "first_minimal key (x # xs) =
     (case first_minimal key xs of
        None \<Rightarrow> Some x
      | Some m \<Rightarrow> if key x \<le> key m then Some x else Some m)"

definition chosen_xdo :: "(char \<Rightarrow> string) \<Rightarrow> string list \<Rightarrow> string option" where
  "chosen_xdo L names =
     (if list_ex (\<lambda>n. endswith (lower L n) ''report.xdo'') names
      then first_minimal depth_then_length (filter (\<lambda>n. endswith (lower L n) ''report.xdo'') names)
      else first_minimal depth_then_length (filter (\<lambda>n. endswith (lower L n) ''.xdo'') names))"

definition first_attr :: "string \<Rightarrow> string \<Rightarrow> xml \<Rightarrow> string option" where
  "first_attr name attr root =
     (case find (\<lambda>e. local_name e = name \<and> map_of (attrib e) attr \<noteq> None) (descendants root) of
        None \<Rightarrow> None
      | Some e \<Rightarrow> map_of (attrib e) attr)"

text \<open>
  Following the words of the specification and of the docstring: the preferred members
  are those named \<open>report.xdo\<close> (in any folder) or ending with \<open>_report.xdo\<close>;
  and the reference is the \<open>url\<close> attribute of the first \<open>dataModel\<close> element.
\<close>

definition claimed_xdo :: "(char \<Rightarrow> string) \<Rightarrow> string list \<Rightarrow> string option" where
  "claimed_xdo L names =
     (if list_ex (\<lambda>n. path_name (Path_of_str (lower L n)) = ''report.xdo'' \<or>
                      endswith (lower L n) ''_report.xdo'') names
      then first_minimal depth_then_length
             (filter (\<lambda>n. path_name (Path_of_str (lower L n)) = ''report.xdo'' \<or>
                            endswith (lower L n) ''_report.xdo'') names)
      else first_minimal depth_then_length (filter (\<lambda>n. endswith (lower L n) ''.xdo'') names))"

definition claimed_url :: "xml \<Rightarrow> string option" where
  "claimed_url root =
     (case filter (\<lambda>e. local_name e = ''dataModel'') (descendants root) of
        [] \<Rightarrow> None
      | e # _ \<Rightarrow> map_of (attrib e) ''url'')"

subsection \<open>The matcher (app.py, second pass over a container)\<close>

text \<open>
  \<open>p.stem\<close> and \<open>p.suffix\<close>: the final component is cut at its last dot, unless
  that dot is its first or its last character.
\<close>

definition rfind :: "char \<Rightarrow> string \<Rightarrow> nat option" where
  "rfind c s =
     (if c \<in> set s then Some (length s - Suc (length (takeWhile (\<lambda>x. x \<noteq> c) (rev s)))) else None)"

definition path_stem :: "path \<Rightarrow> string" where
  "path_stem p =
     (let name = path_name p in
      case rfind (CHR ''.'') name of
        None \<Rightarrow> name
      | Some i \<Rightarrow> if 0 < i \<and> i < length name - 1 then take i name else name)"

definition path_suffix :: "path \<Rightarrow> string" where
  "path_suffix p =
     (let name = path_name p in
      case rfind (CHR ''.'') name of
        None \<Rightarrow> []
      | Some i \<Rightarrow> if 0 < i \<and> i < length name - 1 then drop i name else [])"

text \<open>
  \<open>p.relative_to(base)\<close>: the components of \<open>p\<close> after those of \<open>base\<close>;
  a \<open>ValueError\<close> when \<open>p\<close> is not below \<open>base\<close>.
\<close>

definition relative_to :: "path \<Rightarrow> path \<Rightarrow> error + path" where
  "relative_to p base =
     (if absolute p = absolute base \<and> take (length (comps base)) (comps p) = comps base
      then Inr (Path False (drop (length (comps base)) (comps p)))
      else Inl ValueError)"

text \<open>
  \<^verbatim>\<open>
  rel_parent = xdoz_file.relative_to(src).parent
  otbi_root = ensure_dir(out_root / safe_path_from_rel(rel_parent))
  dm_url = read_report_datamodel_url(xdoz_file)
  target_model_root: Optional[Path] = None
  if dm_url:
      dm_stem = Path(dm_url).stem.lower()
      found = False
      for scope in walk_up_rel_paths(rel_parent):
          key = (scope, dm_stem)
          if key in scoped_map:
              target_model_root = scoped_map[key]
              found = True
              break
      if not found and dm_stem in global_map:
          target_model_root = global_map[dm_stem]
  if target_model_root is None:
      target_model_root = ensure_dir(otbi_root / "_Orphan")
  \<close>
  The two dictionaries are maps. \<open>find_scope\<close> is the loop over the scopes;
  \<open>match_model_root\<close> is the search for a model root, \<open>None\<close> when the report
  has no reference (or an empty one) or no model matches; \<open>place_report\<close> is the
  whole, with the folders it creates: its result is the target root and the file
  system afterwards.
\<close>

type_synonym scoped_map = "string \<times> string \<Rightarrow> path option"
type_synonym global_map = "string \<Rightarrow> path option"

fun find_scope :: "scoped_map \<Rightarrow> string \<Rightarrow> string list \<Rightarrow> path option" where
  "find_scope scoped dm_stem [] = None"
| "find_scope scoped dm_stem (scope # rest) =
     (case scoped (scope, dm_stem) of
        Some model_root \<Rightarrow> Some model_root
      | None \<Rightarrow> find_scope scoped dm_stem rest)"

definition match_model_root ::
  "(char \<Rightarrow> string) \<Rightarrow> scoped_map \<Rightarrow> global_map \<Rightarrow> path \<Rightarrow> string option \<Rightarrow> path option" where
  "match_model_root L scoped global rel_parent dm_url =
     (case dm_url of
        None \<Rightarrow> None
      | Some url \<Rightarrow>
          if url = [] then None
          else (let dm_stem = lower L (path_stem (Path_of_str url)) in
                case find_scope scoped dm_stem (walk_up_rel_paths rel_parent) of
                  Some model_root \<Rightarrow> Some model_root
                | None \<Rightarrow> global dm_stem))"

definition place_report ::
  "(char \<Rightarrow> uclass) \<Rightarrow> (char \<Rightarrow> string) \<Rightarrow> (string \<Rightarrow> zip option) \<Rightarrow> (string \<Rightarrow> xml option) \<Rightarrow>
   scoped_map \<Rightarrow> global_map \<Rightarrow> fs \<Rightarrow> path \<Rightarrow> path \<Rightarrow> path \<Rightarrow> error + path \<times> fs" where
  "place_report U L unzip parser scoped global fs src out_root xdoz_file =
     (case relative_to xdoz_file src of
        Inl e \<Rightarrow> Inl e
      | Inr rel \<Rightarrow>
          (let rel_parent = parent rel;
               otbi_root = pdiv out_root (safe_path_from_rel U rel_parent) in
           case mkdir_parents fs otbi_root of
             Inl e \<Rightarrow> Inl e
           | Inr fs1 \<Rightarrow>
               (case match_model_root L scoped global rel_parent
                       (read_report_datamodel_url L unzip parser fs1 xdoz_file) of
                  Some model_root \<Rightarrow> Inr (model_root, fs1)
                | None \<Rightarrow>
                    (case mkdir_parents fs1 (pdiv otbi_root (Path_of_str ''_Orphan'')) of
                       Inl e \<Rightarrow> Inl e
                     | Inr fs2 \<Rightarrow> Inr (pdiv otbi_root (Path_of_str ''_Orphan''), fs2)))))"

subsection \<open>The template extractor (app.py, \<open>extract_templates_from_xdoz\<close>)\<close>

definition template_exts :: "string list" where
  "template_exts = [''.rtf'', ''.xsl'', ''.xlsx'', ''.xls'', ''.xpt'', ''.xltx'', ''.xlsm'', ''.pptx'',
                    ''.etext'', ''.html'', ''.xhtml'']"

text \<open>
  One copy, as both passes make it:
  \<^verbatim>\<open>
  out = tpl_dir / Path(n).name
  base, suf = out.stem, out.suffix
  i = 1
  while out.exists():
      out = tpl_dir / f"{base}_{i}{suf}"
      i += 1
  with zf.open(n) as f_in, open(out, "wb") as f_out:
      shutil.copyfileobj(f_in, f_out)
  \<close>
  The result is the path written and the file system afterwards, or the exception.
\<close>

definition copy_member :: "fs \<Rightarrow> zip \<Rightarrow> path \<Rightarrow> string \<Rightarrow> (error + path \<times> fs) option" where
  "copy_member fs zf tpl_dir n =
     (let out = pdiv tpl_dir (Path_of_str (path_name (Path_of_str n)));
          base = path_stem out;
          suf = path_suffix out in
      case first_free fs (\<lambda>i. pdiv tpl_dir (Path_of_str (base @ ''_'' @ str_nat i @ suf))) out 1 of
        None \<Rightarrow> None
      | Some out' \<Rightarrow>
          (case zip_read zf n of
             None \<Rightarrow> Some (Inl KeyError)
           | Some data \<Rightarrow>
               (case write_file fs out' data of
                  Inl e \<Rightarrow> Some (Inl e)
                | Inr fs' \<Rightarrow> Some (Inr (out', fs')))))"

text \<open>
  The first pass, over the names of the archive. An exception leaves the \<open>try\<close>
  block: the function then returns what was created so far, which is the left
  alternative of the result.
\<close>

fun by_extension ::
  "(char \<Rightarrow> string) \<Rightarrow> zip \<Rightarrow> path \<Rightarrow> string list \<Rightarrow> path list \<times> fs \<Rightarrow>
   (path list \<times> fs + path list \<times> fs) option" where
  "by_extension L zf tpl_dir [] st = Some (Inr st)"
| "by_extension L zf tpl_dir (n # ns) (created, fs) =
     (if endswith n ''/'' \<or> startswith n ''__MACOSX/'' then by_extension L zf tpl_dir ns (created, fs)
      else if list_ex (\<lambda>ext. endswith (lower L n) ext) template_exts
      then (case copy_member fs zf tpl_dir n of
              None \<Rightarrow> None
            | Some (Inl e) \<Rightarrow> Some (Inl (created, fs))
            | Some (Inr (out, fs')) \<Rightarrow> by_extension L zf tpl_dir ns (created @ [out], fs'))
      else by_extension L zf tpl_dir ns (created, fs))"

text \<open>
  The second pass, over the \<open>url\<close> attributes of the template elements. A
  reference is resolved to a member of that very name, else to the first member whose
  base name is the same in lower case; \<open>if src:\<close> skips an empty name. The test
  \<open>if out not in created\<close> comes after the copy.
\<close>

definition resolve_ref :: "(char \<Rightarrow> string) \<Rightarrow> string list \<Rightarrow> string \<Rightarrow> string option" where
  "resolve_ref L names ref =
     (if ref \<in> set names then Some ref
      else find (\<lambda>n. lower L (path_name (Path_of_str n)) = lower L (path_name (Path_of_str ref))) names)"

fun by_reference ::
  "(char \<Rightarrow> string) \<Rightarrow> zip \<Rightarrow> path \<Rightarrow> string list \<Rightarrow> string list \<Rightarrow> path list \<times> fs \<Rightarrow>
   (path list \<times> fs + path list \<times> fs) option" where
  "by_reference L zf tpl_dir names [] st = Some (Inr st)"
| "by_reference L zf tpl_dir names (ref # refs) (created, fs) =
     (case resolve_ref L names ref of
        None \<Rightarrow> by_reference L zf tpl_dir names refs (created, fs)
      | Some src \<Rightarrow>
          if src = [] then by_reference L zf tpl_dir names refs (created, fs)
          else (case copy_member fs zf tpl_dir src of
                  None \<Rightarrow> None
                | Some (Inl e) \<Rightarrow> Some (Inl (created, fs))
                | Some (Inr (out, fs')) \<Rightarrow>
                    by_reference L zf tpl_dir names refs
                      (if out \<notin> set created then created @ [out] else created, fs')))"

text \<open>
  The whole function. \<open>ensure_dir\<close> stands before the \<open>try\<close> block, so its
  exception is the function's; every other failure ends the extraction with what was
  created so far.
\<close>

definition extract_templates_from_xdoz ::
  "(char \<Rightarrow> string) \<Rightarrow> (string \<Rightarrow> zip option) \<Rightarrow> (string \<Rightarrow> xml option) \<Rightarrow> fs \<Rightarrow> path \<Rightarrow> path \<Rightarrow>
   (error + path list \<times> fs) option" where
  "extract_templates_from_xdoz L unzip parser fs xdo_file dest_dir =
     (let tpl_dir = pdiv dest_dir (Path_of_str ''report_templates'') in
      case mkdir_parents fs tpl_dir of
        Inl e \<Rightarrow> Some (Inl e)
      | Inr fs0 \<Rightarrow>
          (case lookup fs0 xdo_file of
             Some (File bytes) \<Rightarrow>
               (case unzip bytes of
                  None \<Rightarrow> Some (Inr ([], fs0))
                | Some zf \<Rightarrow>
                    (let names = namelist zf in
                     case by_extension L zf tpl_dir names ([], fs0) of
                       None \<Rightarrow> None
                     | Some (Inl st) \<Rightarrow> Some (Inr st)
                     | Some (Inr st) \<Rightarrow>
                         (let candidates = xdo_candidates L names in
                          if candidates = [] then Some (Inr st)
                          else (case zip_read zf (hd (sort_key depth_then_length candidates)) of
                                  None \<Rightarrow> Some (Inr st)
                                | Some data \<Rightarrow>
                                    (case parser data of
                                       None \<Rightarrow> Some (Inr st)
                                     | Some root \<Rightarrow>
                                         (case by_reference L zf tpl_dir names
                                                 (List.map_filter (\<lambda>e. map_of (attrib e) ''url'')
                                                    (xpath_children_of ''templates'' ''template'' root)) st of
                                            None \<Rightarrow> None
                                          | Some (Inl st') \<Rightarrow> Some (Inr st')
                                          | Some (Inr st') \<Rightarrow> Some (Inr st')))))))
           | _ \<Rightarrow> Some (Inr ([], fs0))))"

subsection \<open>The packager and the extractor (utils_bip.py, \<open>zip_folder\<close>, \<open>extract_ziplike\<close>)\<close>

text \<open>
  \<^verbatim>\<open>
  def zip_folder(folder: Path) -> bytes:
      bio = io.BytesIO()
      with zipfile.ZipFile(bio, "w", compression=zipfile.ZIP_DEFLATED) as zf:
          for root, _, files in os.walk(folder):
              for fn in files:
                  full = Path(root) / fn
                  zf.write(full, full.relative_to(folder))
      bio.seek(0)
      return bio.read()
  \<close>
  \<open>os.walk\<close> visits a directory, then the directories in it: \<open>walk_files\<close> lists
  the files of the directory (each with its bytes), then those of every subdirectory, in
  the order of the table. A folder that is not a directory yields nothing. The
  recursion ends because an entry of a directory is one component longer than the
  directory, and no entry of the table is longer than the longest one.
\<close>

definition listdir :: "fs \<Rightarrow> path \<Rightarrow> (path \<times> node) list" where
  "listdir fs d = filter (\<lambda>e. comps (fst e) \<noteq> [] \<and> parent (fst e) = d) fs"

function walk_files :: "fs \<Rightarrow> path \<Rightarrow> (path \<times> string) list" where
  "walk_files fs dir =
     (if is_dir fs dir
      then List.map_filter (\<lambda>e. case snd e of File data \<Rightarrow> Some (fst e, data) | Dir \<Rightarrow> None)
             (listdir fs dir) @
           concat (map (\<lambda>e. case snd e of Dir \<Rightarrow> walk_files fs (fst e) | File data \<Rightarrow> [])
             (listdir fs dir))
      else [])"
  by pat_completeness auto
termination
proof (relation "measure (\<lambda>(fs, d). Suc (Max (insert 0 ((\<lambda>e. length (comps (fst e))) ` set fs)))
                                   - length (comps d))")
  show "wf (measure (\<lambda>(fs, d). Suc (Max (insert 0 ((\<lambda>e. length (comps (fst e))) ` set fs)))
                                   - length (comps d)))" by simp
next
  fix fs :: fs and dir :: path and e :: "path \<times> node"
  assume "e \<in> set (listdir fs dir)"
  then have e: "e \<in> set fs" and ne: "comps (fst e) \<noteq> []" and p: "parent (fst e) = dir"
    by (auto simp: listdir_def)
  have "length (comps (fst e)) \<le> Max (insert 0 ((\<lambda>e. length (comps (fst e))) ` set fs))"
    using e by (intro Max_ge) auto
  moreover have "length (comps dir) < length (comps (fst e))"
    using ne p by (auto simp: parent_def)
  ultimately have
    "Suc (Max (insert 0 ((\<lambda>e. length (comps (fst e))) ` set fs))) - length (comps (fst e))
       < Suc (Max (insert 0 ((\<lambda>e. length (comps (fst e))) ` set fs))) - length (comps dir)"
    by linarith
  then show "((fs, fst e), fs, dir)
      \<in> measure (\<lambda>(fs, d). Suc (Max (insert 0 ((\<lambda>e. length (comps (fst e))) ` set fs)))
                                   - length (comps d))"
    by simp
qed

declare walk_files.simps [simp del]

text \<open>
  \<open>zf.write(full, arcname)\<close> appends a member named by the POSIX form of
  \<open>full.relative_to(folder)\<close>, holding the bytes of the file; \<open>relative_to\<close>
  raises for a path that is not under the folder. The bytes of the finished archive are
  those of the container format: \<open>zipper\<close> stands for the writer of the format,
  \<open>unzip\<close> for its reader (\<open>None\<close> when the bytes are no archive).
\<close>

fun zip_write_all :: "path \<Rightarrow> (path \<times> string) list \<Rightarrow> zip \<Rightarrow> error + zip" where
  "zip_write_all folder [] zf = Inr zf"
| "zip_write_all folder ((full, data) # rest) zf =
     (case relative_to full folder of
        Inl e \<Rightarrow> Inl e
      | Inr arcname \<Rightarrow> zip_write_all folder rest (zf @ [(as_posix arcname, data)]))"

definition zip_folder :: "(zip \<Rightarrow> string) \<Rightarrow> fs \<Rightarrow> path \<Rightarrow> error + string" where
  "zip_folder zipper fs folder =
     (case zip_write_all folder (walk_files fs folder) [] of
        Inl e \<Rightarrow> Inl e
      | Inr zf \<Rightarrow> Inr (zipper zf))"

text \<open>
  \<^verbatim>\<open>
  def extract_ziplike(file_obj, dest_dir: Path) -> None:
      dest_dir.mkdir(parents=True, exist_ok=True)
      with zipfile.ZipFile(file_obj) as zf:
          zf.extractall(dest_dir)
  \<close>
  \<open>extractall\<close> extracts the members in archive order. For one member the library
  drops the empty, \<open>.\<close> and \<open>..\<close> components of its name, joins the rest to the
  destination, creates the missing directories above the target, and then creates the
  directory (a name ending in \<open>/\<close>) or writes the file.
\<close>

definition member_target :: "path \<Rightarrow> string \<Rightarrow> path" where
  "member_target dest name =
     Path (absolute dest)
       (comps dest @ filter (\<lambda>x. x \<notin> set ['''', ''.'', ''..'']) (split_on (CHR ''/'') name))"

definition extract_member :: "fs \<Rightarrow> path \<Rightarrow> string \<times> string \<Rightarrow> error + fs" where
  "extract_member fs dest member =
     (let targetpath = member_target dest (fst member);
          upperdirs = parent targetpath in
      case (if path_exists fs upperdirs then Inr fs else mkdir_parents fs upperdirs) of
        Inl e \<Rightarrow> Inl e
      | Inr fs1 \<Rightarrow>
          if endswith (fst member) ''/''
          then (if is_dir fs1 targetpath then Inr fs1
                else if path_exists fs1 targetpath then Inl FileExistsError
                else Inr (AList.update targetpath Dir fs1))
          else write_file fs1 targetpath (snd member))"

fun extractall :: "fs \<Rightarrow> path \<Rightarrow> zip \<Rightarrow> error + fs" where
  "extractall fs dest [] = Inr fs"
| "extractall fs dest (member # rest) =
     (case extract_member fs dest member of
        Inl e \<Rightarrow> Inl e
      | Inr fs' \<Rightarrow> extractall fs' dest rest)"

definition extract_ziplike :: "(string \<Rightarrow> zip option) \<Rightarrow> string \<Rightarrow> fs \<Rightarrow> path \<Rightarrow> error + fs" where
  "extract_ziplike unzip file_obj fs dest_dir =
     (case mkdir_parents fs dest_dir of
        Inl e \<Rightarrow> Inl e
      | Inr fs0 \<Rightarrow>
          (case unzip file_obj of
             None \<Rightarrow> Inl BadZipFile
           | Some zf \<Rightarrow> extractall fs0 dest_dir zf))"

text \<open>
  A table is a tree of a POSIX file system when no path is listed twice, every name is a
  file name (not empty, not \<open>.\<close> or \<open>..\<close>, without a separator), and every entry
  lies in a directory. \<open>below d p\<close>: the path \<open>p\<close> lies strictly under \<open>d\<close>;
  \<open>on_way q p\<close>: \<open>q\<close> is \<open>p\<close> or lies above it.
\<close>

definition below :: "path \<Rightarrow> path \<Rightarrow> bool" where
  "below d p = (absolute p = absolute d \<and> strict_prefix (comps d) (comps p))"

definition on_way :: "path \<Rightarrow> path \<Rightarrow> bool" where
  "on_way q p = (absolute q = absolute p \<and> prefix (comps q) (comps p))"

definition valid_name :: "string \<Rightarrow> bool" where
  "valid_name c = (c \<noteq> [] \<and> c \<noteq> ''.'' \<and> c \<noteq> ''..'' \<and> CHR ''/'' \<notin> set c)"

definition tree_shaped :: "fs \<Rightarrow> bool" where
  "tree_shaped fs =
     (distinct (map fst fs) \<and>
      list_all (\<lambda>e. comps (fst e) \<noteq> [] \<and> list_all valid_name (comps (fst e)) \<and>
                     is_dir fs (parent (fst e))) fs)"

section \<open>Properties\<close>

subsection \<open>The name sanitizer\<close>

lemma space_not_name_char: "isspace U c \<Longrightarrow> \<not> name_char U c"
  by (auto simp: isspace_def name_char_def word_char_def isalnum_def ascii_space_def ascii_alnum_def
      is_ascii_def split: if_splits)

lemma re_sub_plus_set: "set (re_sub_plus P repl s) \<subseteq> {c \<in> set s. \<not> P c} \<union> set repl"
proof (induction P repl s rule: re_sub_plus.induct)
  case (1 P repl)
  then show ?case by simp
next
  case (2 P repl c cs)
  then show ?case using set_dropWhileD[of _ P cs] by (auto split: if_splits)
qed

lemma re_sub_plus_id: "list_all (\<lambda>c. \<not> P c) s \<Longrightarrow> re_sub_plus P repl s = s"
  by (induction s) auto

lemma re_sub_plus_hd:
  "s \<noteq> [] \<Longrightarrow> \<not> P (hd s) \<Longrightarrow> re_sub_plus P repl s \<noteq> [] \<and> hd (re_sub_plus P repl s) = hd s"
  by (cases s) auto

lemma no_double_us_Cons:
  "no_double_us r \<Longrightarrow> r = [] \<or> hd r \<noteq> CHR ''_'' \<or> a \<noteq> CHR ''_'' \<Longrightarrow> no_double_us (a # r)"
  by (cases r) auto

lemma dropWhile_hd_id: "xs = [] \<or> \<not> P (hd xs) \<Longrightarrow> dropWhile P xs = xs"
  by (cases xs) auto

lemma no_double_us_collapse: "no_double_us (re_sub_plus (\<lambda>c. c = CHR ''_'') ''_'' s)"
proof (induction "\<lambda>c. c = CHR ''_''" "''_''" s rule: re_sub_plus.induct)
  case 1
  then show ?case by simp
next
  case (2 c cs)
  show ?case
  proof (cases "c = CHR ''_''")
    case True
    define d where "d = dropWhile (\<lambda>c. c = CHR ''_'') cs"
    have ih: "no_double_us (re_sub_plus (\<lambda>c. c = CHR ''_'') ''_'' d)"
      using 2(1) True by (simp add: d_def)
    have "d = [] \<or> hd d \<noteq> CHR ''_''"
      using hd_dropWhile[of "\<lambda>c. c = CHR ''_''" cs] by (auto simp: d_def)
    then have "re_sub_plus (\<lambda>c. c = CHR ''_'') ''_'' d = [] \<or>
               hd (re_sub_plus (\<lambda>c. c = CHR ''_'') ''_'' d) \<noteq> CHR ''_''"
      by (cases d) auto
    then have "no_double_us (CHR ''_'' # re_sub_plus (\<lambda>c. c = CHR ''_'') ''_'' d)"
      using ih no_double_us_Cons by blast
    moreover have "re_sub_plus (\<lambda>c. c = CHR ''_'') ''_'' (c # cs) =
        CHR ''_'' # re_sub_plus (\<lambda>c. c = CHR ''_'') ''_'' d"
      using True by (simp add: d_def)
    ultimately show ?thesis by simp
  next
    case False
    then have ih: "no_double_us (re_sub_plus (\<lambda>c. c = CHR ''_'') ''_'' cs)" using 2(2) by simp
    then show ?thesis using False by (simp add: no_double_us_Cons)
  qed
qed

lemma no_double_us_collapse_id: "no_double_us s \<Longrightarrow> re_sub_plus (\<lambda>c. c = CHR ''_'') ''_'' s = s"
proof (induction s rule: no_double_us.induct)
  case (1 a b cs)
  then show ?case by (cases "b = CHR ''_''") auto
qed auto

lemma no_double_us_tl: "no_double_us (v # ys) \<Longrightarrow> no_double_us ys"
  by (cases ys) auto

lemma no_double_us_append:
  "no_double_us (xs @ ys) \<Longrightarrow> no_double_us xs \<and> no_double_us ys"
  by (induction xs rule: no_double_us.induct) (auto dest: no_double_us_tl)

lemma no_double_us_drop: "no_double_us s \<Longrightarrow> no_double_us (drop n s)"
  using no_double_us_append[of "take n s" "drop n s"] by simp

lemma no_double_us_take: "no_double_us s \<Longrightarrow> no_double_us (take n s)"
  using no_double_us_append[of "take n s" "drop n s"] by simp

lemma rstrip_take: "rstrip P s = take (length s - length (takeWhile P (rev s))) s"
  by (simp add: rstrip_def dropWhile_eq_drop rev_drop)

lemma lstrip_drop: "lstrip P s = drop (length (takeWhile P s)) s"
  by (simp add: lstrip_def dropWhile_eq_drop)

lemma strip_no_double_us: "no_double_us s \<Longrightarrow> no_double_us (strip P s)"
  by (simp add: strip_def rstrip_take lstrip_drop no_double_us_drop no_double_us_take)

lemma strip_set: "set (strip P s) \<subseteq> set s"
  using set_dropWhileD[of _ P "rev (dropWhile P (rev s))"] set_dropWhileD[of _ P "rev s"]
  by (auto simp: strip_def lstrip_def rstrip_def)

lemma strip_ends: "strip P s \<noteq> [] \<Longrightarrow> \<not> P (hd (strip P s)) \<and> \<not> P (last (strip P s))"
proof -
  assume ne: "strip P s \<noteq> []"
  let ?r = "rstrip P s"
  have r_ne: "?r \<noteq> []" using ne by (auto simp: strip_def lstrip_def)
  have "\<not> P (last ?r)" using r_ne hd_dropWhile[of P "rev s"] by (simp add: rstrip_def last_rev)
  moreover have "last (strip P s) = last ?r"
    using ne by (simp add: strip_def lstrip_drop)
  moreover have "\<not> P (hd (strip P s))" using ne hd_dropWhile[of P ?r] by (simp add: strip_def lstrip_def)
  ultimately show ?thesis by simp
qed

lemma strip_id: "s = [] \<or> (\<not> P (hd s) \<and> \<not> P (last s)) \<Longrightarrow> strip P s = s"
proof (cases s)
  case Nil
  then show ?thesis by (simp add: strip_def lstrip_def rstrip_def)
next
  case (Cons a t)
  assume "s = [] \<or> (\<not> P (hd s) \<and> \<not> P (last s))"
  then have h: "\<not> P (hd s)" and l: "\<not> P (last s)" using Cons by auto
  have "s \<noteq> []" using Cons by simp
  then have "hd (rev s) = last s" by (simp add: hd_rev)
  then have "dropWhile P (rev s) = rev s" using l by (intro dropWhile_hd_id) simp
  then have "rstrip P s = s" by (simp add: rstrip_def)
  then show ?thesis using h Cons by (simp add: strip_def lstrip_def)
qed

lemma unnamed_sanitized: "sanitized U ''unnamed''"
  by (simp add: sanitized_def name_char_def word_char_def isalnum_def is_ascii_def ascii_alnum_def
      in_chars_def)

lemma safe_name_sanitized: "sanitized U (safe_name U x)"
proof -
  define n1 where "n1 = strip (isspace U) x"
  define n2 where "n2 = re_sub_plus (\<lambda>c. \<not> name_char U c) ''_'' n1"
  define n3 where "n3 = re_sub_plus (\<lambda>c. c = CHR ''_'') ''_'' n2"
  define n4 where "n4 = strip (in_chars ''._'') n3"
  have us: "name_char U (CHR ''_'')" by (simp add: name_char_def word_char_def)
  have a2: "list_all (name_char U) n2"
    using re_sub_plus_set[of "\<lambda>c. \<not> name_char U c" "''_''" n1] us
    by (auto simp: n2_def list_all_iff)
  have a3: "list_all (name_char U) n3"
    using re_sub_plus_set[of "\<lambda>c. c = CHR ''_''" "''_''" n2] a2 us
    by (auto simp: n3_def list_all_iff)
  have a4: "list_all (name_char U) n4"
    using strip_set[of "in_chars ''._''" n3] a3 by (auto simp: n4_def list_all_iff)
  have d4: "no_double_us n4"
    unfolding n4_def n3_def by (rule strip_no_double_us, rule no_double_us_collapse)
  have e4: "n4 \<noteq> [] \<Longrightarrow> \<not> in_chars ''._'' (hd n4) \<and> \<not> in_chars ''._'' (last n4)"
    unfolding n4_def by (rule strip_ends)
  have eq: "safe_name U x = (if n4 = [] then ''unnamed'' else n4)"
    by (simp add: safe_name_def n1_def n2_def n3_def n4_def)
  show ?thesis
  proof (cases "n4 = []")
    case True
    then show ?thesis using eq unnamed_sanitized by simp
  next
    case False
    then show ?thesis using eq a4 d4 e4 by (simp add: sanitized_def)
  qed
qed

lemma sanitized_fixed: "sanitized U r \<Longrightarrow> safe_name U r = r"
proof -
  assume s: "sanitized U r"
  then have ne: "r \<noteq> []" and all: "list_all (name_char U) r" and nd: "no_double_us r"
    and hd: "\<not> in_chars ''._'' (hd r)" and lst: "\<not> in_chars ''._'' (last r)"
    by (simp_all add: sanitized_def)
  have "name_char U (hd r)" "name_char U (last r)" using ne all by (auto simp: list_all_iff)
  then have "\<not> isspace U (hd r)" "\<not> isspace U (last r)" using space_not_name_char by blast+
  then have 1: "strip (isspace U) r = r" by (simp add: strip_id)
  have 2: "re_sub_plus (\<lambda>c. \<not> name_char U c) ''_'' r = r" using all by (simp add: re_sub_plus_id)
  have 3: "re_sub_plus (\<lambda>c. c = CHR ''_'') ''_'' r = r" using nd by (rule no_double_us_collapse_id)
  have 4: "strip (in_chars ''._'') r = r" using hd lst by (simp add: strip_id)
  show ?thesis using ne by (simp add: safe_name_def Let_def 1 2 3 4)
qed

text \<open>
  Claim C5. For every string \<open>x\<close>, sanitizing is idempotent,
  \<open>safe_name (safe_name x) = safe_name x\<close>, and its result is never the empty
  string, whatever classes the Unicode table gives the characters beyond ASCII.
\<close>

theorem safe_name_idempotent_nonempty:
  "safe_name U (safe_name U x) = safe_name U x \<and> safe_name U x \<noteq> []"
  using safe_name_sanitized[of U x] sanitized_fixed[of U "safe_name U x"] by (simp add: sanitized_def)

subsection \<open>Paths and the ancestor walk\<close>

lemma Path_dot: "Path_of_str ''.'' = Path False []"
  by (simp add: Path_of_str_def)

lemma walk_up_snoc:
  "walk_up_rel_paths (Path False (qs @ [x])) =
     as_posix (Path False (qs @ [x])) # walk_up_rel_paths (Path False qs)"
  by (subst walk_up_rel_paths.simps) (simp add: Path_dot parent_def)

lemma walk_up_dot: "walk_up_rel_paths (Path False []) = [''.'']"
  by (subst walk_up_rel_paths.simps) (simp add: Path_dot as_posix_def)

lemma walk_up_chain:
  "walk_up_rel_paths (Path False ps) =
     map (\<lambda>k. as_posix (Path False (take k ps))) (rev [0..<Suc (length ps)])"
proof (induction ps rule: rev_induct)
  case Nil
  then show ?case by (simp add: walk_up_dot as_posix_def)
next
  case (snoc x qs)
  have "map (\<lambda>k. as_posix (Path False (take k (qs @ [x])))) (rev [0..<Suc (length qs)]) =
        map (\<lambda>k. as_posix (Path False (take k qs))) (rev [0..<Suc (length qs)])"
    by (rule map_cong) auto
  then show ?case using snoc by (simp add: walk_up_snoc)
qed

lemma ancestors_distinct:
  "distinct (map (\<lambda>k. Path False (take k ps)) (rev [0..<Suc (length ps)]))"
proof -
  have "inj_on (\<lambda>k. Path False (take k ps)) (set (rev [0..<Suc (length ps)]))"
  proof (rule inj_onI)
    fix i j
    assume i: "i \<in> set (rev [0..<Suc (length ps)])" and j: "j \<in> set (rev [0..<Suc (length ps)])"
      and eq: "Path False (take i ps) = Path False (take j ps)"
    from eq have "length (take i ps) = length (take j ps)" by simp
    then show "i = j" using i j by auto
  qed
  then show ?thesis by (simp add: distinct_map)
qed

lemma split_on_not_Nil: "split_on d s \<noteq> []"
  by (induction s) (auto split: list.splits)

lemma split_on_no_delim: "d \<notin> set w \<Longrightarrow> split_on d w = [w]"
  by (induction w) auto

lemma split_on_append_delim:
  "d \<notin> set w \<Longrightarrow> split_on d (w @ d # rest) = w # split_on d rest"
  by (induction w) (auto split: list.splits)

lemma split_on_join:
  "xs \<noteq> [] \<Longrightarrow> list_all (\<lambda>w. d \<notin> set w) xs \<Longrightarrow> split_on d (join [d] xs) = xs"
proof (induction "[d]" xs rule: join.induct)
  case 1
  then show ?case by simp
next
  case (2 x)
  then show ?case by (simp add: split_on_no_delim)
next
  case (3 x y ys)
  then show ?case by (simp add: split_on_append_delim)
qed

lemma valid_comp_hd: "valid_comp c \<Longrightarrow> hd c \<noteq> CHR ''/''"
  by (cases c) (auto simp: valid_comp_def)

lemma join_hd: "xs \<noteq> [] \<Longrightarrow> hd xs \<noteq> [] \<Longrightarrow> join sep xs \<noteq> [] \<and> hd (join sep xs) = hd (hd xs)"
  by (induction sep xs rule: join.induct) auto

lemma Path_of_str_as_posix:
  assumes "list_all valid_comp qs"
  shows "Path_of_str (as_posix (Path False qs)) = Path False qs"
proof (cases "qs = []")
  case True
  then show ?thesis by (simp add: as_posix_def Path_dot)
next
  case False
  have nd: "list_all (\<lambda>w. CHR ''/'' \<notin> set w) qs"
    using assms by (auto simp: list_all_iff valid_comp_def)
  have sp: "split_on (CHR ''/'') (join ''/'' qs) = qs" using False nd by (rule split_on_join)
  have flt: "filter (\<lambda>c. c \<noteq> [] \<and> c \<noteq> ''.'') qs = qs"
    using assms by (auto simp: list_all_iff valid_comp_def intro: filter_True)
  have "hd qs \<in> set qs" using False by simp
  then have v: "valid_comp (hd qs)" using assms by (auto simp: list_all_iff)
  then have h: "join ''/'' qs \<noteq> [] \<and> hd (join ''/'' qs) = hd (hd qs)"
    using False join_hd[of qs "''/''"] by (simp add: valid_comp_def)
  have "hd (hd qs) \<noteq> CHR ''/''" using v by (rule valid_comp_hd)
  then show ?thesis using False h sp flt by (simp add: as_posix_def Path_of_str_def)
qed

lemma walk_up_distinct:
  assumes "list_all valid_comp ps"
  shows "distinct (walk_up_rel_paths (Path False ps))"
proof -
  let ?anc = "map (\<lambda>k. Path False (take k ps)) (rev [0..<Suc (length ps)])"
  have w: "walk_up_rel_paths (Path False ps) = map as_posix ?anc"
    by (simp add: walk_up_chain comp_def del: upt_Suc)
  have "inj_on as_posix (set ?anc)"
  proof (rule inj_onI)
    fix p q assume p: "p \<in> set ?anc" and q: "q \<in> set ?anc" and eq: "as_posix p = as_posix q"
    from p obtain i where pi: "p = Path False (take i ps)" by (auto simp del: upt_Suc)
    from q obtain j where qj: "q = Path False (take j ps)" by (auto simp del: upt_Suc)
    have vi: "list_all valid_comp (take i ps)" using assms by (auto simp: list_all_iff dest: in_set_takeD)
    have vj: "list_all valid_comp (take j ps)" using assms by (auto simp: list_all_iff dest: in_set_takeD)
    have "Path_of_str (as_posix p) = Path_of_str (as_posix q)" using eq by simp
    then show "p = q" using pi qj Path_of_str_as_posix[OF vi] Path_of_str_as_posix[OF vj] by simp
  qed
  then have "distinct (map as_posix ?anc)"
    using ancestors_distinct[of ps] by (subst distinct_map) blast
  then show ?thesis unfolding w .
qed

text \<open>
  Claim C10. For every relative path with components \<open>ps\<close>, the walk yields
  \<open>length ps + 1\<close> values and then stops: the path itself first, then each
  ancestor once, nearest first (the paths of the first \<open>k\<close> components, for
  \<open>k\<close> from \<open>length ps\<close> down to \<open>0\<close>, pairwise distinct), and
  \<open>"."\<close> last. When the components are as \<open>pathlib\<close> produces them, no
  value is yielded twice. The walk is a total function, so the loop over it ends.
\<close>

theorem walk_up_rel_paths_ancestors:
  "walk_up_rel_paths (Path False ps) =
     map (\<lambda>k. as_posix (Path False (take k ps))) (rev [0..<Suc (length ps)])
   \<and> distinct (map (\<lambda>k. Path False (take k ps)) (rev [0..<Suc (length ps)]))
   \<and> length (walk_up_rel_paths (Path False ps)) = Suc (length ps)
   \<and> hd (walk_up_rel_paths (Path False ps)) = as_posix (Path False ps)
   \<and> last (walk_up_rel_paths (Path False ps)) = ''.''
   \<and> (list_all valid_comp ps \<longrightarrow> distinct (walk_up_rel_paths (Path False ps)))"
proof -
  have len: "length (walk_up_rel_paths (Path False ps)) = Suc (length ps)"
    by (simp add: walk_up_chain)
  have hd: "hd (walk_up_rel_paths (Path False ps)) = as_posix (Path False ps)"
    by (subst walk_up_rel_paths.simps) simp
  have "last (walk_up_rel_paths (Path False ps)) = as_posix (Path False (take 0 ps))"
    unfolding walk_up_chain by (simp add: last_map last_rev del: upt_Suc)
  then have "last (walk_up_rel_paths (Path False ps)) = ''.''" by (simp add: as_posix_def)
  then show ?thesis using walk_up_chain ancestors_distinct len hd walk_up_distinct by blast
qed

theorem walk_up_rel_paths_ancestors_witness:
  "walk_up_rel_paths (Path False [''a'', ''b'', ''c'']) = [''a/b/c'', ''a/b'', ''a'', ''.'']
   \<and> list_all valid_comp [''a'', ''b'', ''c'']
   \<and> distinct (walk_up_rel_paths (Path False [''a'', ''b'', ''c'']))"
proof -
  have v: "list_all valid_comp [''a'', ''b'', ''c'']" by (simp add: valid_comp_def)
  have "walk_up_rel_paths (Path False [''a'', ''b'', ''c'']) =
      map (\<lambda>k. as_posix (Path False (take k [''a'', ''b'', ''c'']))) (rev [0..<Suc (length [''a'', ''b'', ''c''])])"
    using walk_up_rel_paths_ancestors[of "[''a'', ''b'', ''c'']"] by blast
  also have "\<dots> = [''a/b/c'', ''a/b'', ''a'', ''.'']"
    by (simp add: as_posix_def upt_rec)
  finally have w: "walk_up_rel_paths (Path False [''a'', ''b'', ''c'']) = [''a/b/c'', ''a/b'', ''a'', ''.'']" .
  have "distinct (walk_up_rel_paths (Path False [''a'', ''b'', ''c'']))"
    using walk_up_rel_paths_ancestors[of "[''a'', ''b'', ''c'']"] v by blast
  then show ?thesis using w v by blast
qed

lemma sanitized_valid_comp: "sanitized U r \<Longrightarrow> valid_comp r \<and> r \<noteq> ''..''"
proof -
  assume s: "sanitized U r"
  have "\<not> name_char U (CHR ''/'')"
    by (simp add: name_char_def word_char_def isalnum_def is_ascii_def ascii_alnum_def)
  then have "CHR ''/'' \<notin> set r" using s by (auto simp: sanitized_def list_all_iff)
  moreover have "r \<noteq> []" using s by (simp add: sanitized_def)
  moreover have "hd r \<noteq> CHR ''.''" using s by (simp add: sanitized_def in_chars_def)
  ultimately show ?thesis by (auto simp: valid_comp_def)
qed

lemma Path_of_str_valid: "valid_comp c \<Longrightarrow> Path_of_str c = Path False [c]"
proof -
  assume v: "valid_comp c"
  then have "hd c \<noteq> CHR ''/''" by (rule valid_comp_hd)
  then show ?thesis using v by (simp add: Path_of_str_def valid_comp_def split_on_no_delim)
qed

lemma Path_of_args_fold:
  "list_all valid_comp cs \<Longrightarrow>
   foldl (\<lambda>p s. pdiv p (Path_of_str s)) (Path a acc) cs = Path a (acc @ cs)"
  by (induction cs arbitrary: acc) (simp_all add: Path_of_str_valid pdiv_def)

lemma Path_of_args_valid: "list_all valid_comp cs \<Longrightarrow> Path_of_args cs = Path False cs"
  using Path_of_args_fold[of cs False "[]"] by (simp add: Path_of_args_def)

lemma resolve_append:
  "list_all (\<lambda>c. c \<noteq> ''..'') cs \<Longrightarrow> foldl resolve_step acc cs = acc @ cs"
  by (induction cs arbitrary: acc) (simp_all add: resolve_step_def)

lemma resolve_inside:
  "list_all (\<lambda>c. c \<noteq> ''..'') cs \<Longrightarrow> resolve (base @ cs) = resolve base @ cs"
  by (simp add: resolve_def resolve_append)

lemma safe_path_comps:
  "safe_path_from_rel U rel_dir =
     Path False (map (safe_name U) (filter (\<lambda>part. part \<noteq> ''.'' \<and> part \<noteq> []) (py_parts rel_dir)))"
proof -
  let ?parts = "map (safe_name U) (filter (\<lambda>part. \<not> (part \<in> set [''.'', ''''])) (py_parts rel_dir))"
  have v: "list_all valid_comp ?parts"
    using safe_name_sanitized sanitized_valid_comp by (auto simp: list_all_iff)
  have f: "filter (\<lambda>part. \<not> (part \<in> set [''.'', ''''])) (py_parts rel_dir) =
           filter (\<lambda>part. part \<noteq> ''.'' \<and> part \<noteq> []) (py_parts rel_dir)"
    by (rule filter_cong) auto
  show ?thesis
  proof (cases "?parts = []")
    case True
    then show ?thesis using f by (simp add: safe_path_from_rel_def Path_dot)
  next
    case False
    then show ?thesis using Path_of_args_valid[OF v] f by (simp add: safe_path_from_rel_def Let_def)
  qed
qed

text \<open>
  Claim C9. For every input path (relative or not), \<open>safe_path_from_rel\<close> returns
  a relative path whose components are the sanitized parts of the input other than
  \<open>"."\<close> and the empty string; none of them is \<open>".."\<close> (which is sanitized to
  \<open>"unnamed"\<close>), \<open>"."\<close> or empty, and none holds a separator. So the path
  joined to an output root is the root's components followed by these, and the file
  system resolves it to a place below what the root resolves to.
\<close>

theorem safe_path_from_rel_confined:
  "absolute (safe_path_from_rel U rel_dir) = False
   \<and> comps (safe_path_from_rel U rel_dir) =
       map (safe_name U) (filter (\<lambda>part. part \<noteq> ''.'' \<and> part \<noteq> []) (py_parts rel_dir))
   \<and> list_all (\<lambda>c. c \<noteq> ''..'' \<and> c \<noteq> ''.'' \<and> c \<noteq> [] \<and> CHR ''/'' \<notin> set c)
       (comps (safe_path_from_rel U rel_dir))
   \<and> safe_name U ''..'' = ''unnamed''
   \<and> pdiv out_root (safe_path_from_rel U rel_dir) =
       Path (absolute out_root) (comps out_root @ comps (safe_path_from_rel U rel_dir))
   \<and> resolve (comps (pdiv out_root (safe_path_from_rel U rel_dir))) =
       resolve (comps out_root) @ comps (safe_path_from_rel U rel_dir)"
proof -
  let ?r = "safe_path_from_rel U rel_dir"
  have c: "comps ?r = map (safe_name U) (filter (\<lambda>part. part \<noteq> ''.'' \<and> part \<noteq> []) (py_parts rel_dir))"
    and a: "absolute ?r = False"
    by (simp_all add: safe_path_comps)
  have all: "list_all (\<lambda>c. c \<noteq> ''..'' \<and> c \<noteq> ''.'' \<and> c \<noteq> [] \<and> CHR ''/'' \<notin> set c) (comps ?r)"
    unfolding c using safe_name_sanitized sanitized_valid_comp
    by (fastforce simp: list_all_iff valid_comp_def)
  have dd: "safe_name U ''..'' = ''unnamed''"
    by (simp add: safe_name_def strip_def lstrip_def rstrip_def isspace_def is_ascii_def
        ascii_space_def name_char_def in_chars_def Let_def)
  have j: "pdiv out_root ?r = Path (absolute out_root) (comps out_root @ comps ?r)"
    using a by (simp add: pdiv_def)
  have "list_all (\<lambda>c. c \<noteq> ''..'') (comps ?r)" using all by (auto simp: list_all_iff)
  then have "resolve (comps (pdiv out_root ?r)) = resolve (comps out_root) @ comps ?r"
    unfolding j by (simp add: resolve_inside)
  then show ?thesis using a c all dd j by blast
qed

subsection \<open>The file system and the search for a free name\<close>

lemma str_nat_not_Nil: "str_nat n \<noteq> []"
  by (subst str_nat.simps) simp

lemma digit_inj: "a < 10 \<Longrightarrow> b < 10 \<Longrightarrow> ''0123456789'' ! a = ''0123456789'' ! b \<Longrightarrow> a = b"
proof -
  have "distinct ''0123456789''" by simp
  moreover assume "a < 10" "b < 10" "''0123456789'' ! a = ''0123456789'' ! b"
  ultimately show "a = b" by (simp add: nth_eq_iff_index_eq)
qed

lemma str_nat_inj: "str_nat n = str_nat m \<Longrightarrow> n = m"
proof (induction n arbitrary: m rule: str_nat.induct)
  case (1 n)
  show ?case
  proof (cases "n < 10")
    case True
    note n = this
    show ?thesis
    proof (cases "m < 10")
      case True
      then show ?thesis using n 1(2) digit_inj[of n m]
        by (simp add: str_nat.simps[of n] str_nat.simps[of m])
    next
      case False
      then have "str_nat m = str_nat (m div 10) @ [''0123456789'' ! (m mod 10)]"
        by (subst str_nat.simps) simp
      moreover have "str_nat n = [''0123456789'' ! n]" using n by (subst str_nat.simps) simp
      ultimately show ?thesis using 1(2) str_nat_not_Nil[of "m div 10"] by simp
    qed
  next
    case False
    note n = this
    have sn: "str_nat n = str_nat (n div 10) @ [''0123456789'' ! (n mod 10)]"
      using n by (subst str_nat.simps) simp
    show ?thesis
    proof (cases "m < 10")
      case True
      then have "str_nat m = [''0123456789'' ! m]" by (subst str_nat.simps) simp
      then show ?thesis using sn 1(2) str_nat_not_Nil[of "n div 10"] by simp
    next
      case False
      then have sm: "str_nat m = str_nat (m div 10) @ [''0123456789'' ! (m mod 10)]"
        by (subst str_nat.simps) simp
      from sn sm 1(2) have a: "str_nat (n div 10) = str_nat (m div 10)"
        and b: "''0123456789'' ! (n mod 10) = ''0123456789'' ! (m mod 10)" by simp_all
      have "n div 10 = m div 10" using 1(1)[OF n a] .
      moreover have "n mod 10 = m mod 10" using b digit_inj[of "n mod 10" "m mod 10"] by simp
      ultimately show ?thesis by (metis div_mult_mod_eq)
    qed
  qed
qed

lemma first_free_run:
  "path_exists fs target \<Longrightarrow> i \<le> j \<Longrightarrow> \<not> path_exists fs (cand j) \<Longrightarrow>
   (\<And>k. i \<le> k \<Longrightarrow> k < j \<Longrightarrow> path_exists fs (cand k)) \<Longrightarrow>
   first_free fs cand target i = Some (cand j)"
proof (induction "j - i" arbitrary: i target)
  case 0
  then have "i = j" by simp
  then show ?case using 0 by (subst first_free.simps, subst first_free.simps) simp
next
  case (Suc d)
  then have ij: "i < j" by simp
  then have ex: "path_exists fs (cand i)" using Suc(6) by simp
  have "first_free fs cand (cand i) (Suc i) = Some (cand j)"
    using Suc(1)[of "Suc i" "cand i"] Suc(2) ex ij Suc(5) Suc(6) by simp
  then show ?case using Suc(3) by (subst first_free.simps) simp
qed

lemma first_free_here: "\<not> path_exists fs target \<Longrightarrow> first_free fs cand target i = Some target"
  by (subst first_free.simps) simp

lemma exists_finite:
  assumes "inj cand"
  shows "finite {j. path_exists fs (cand j)}"
proof -
  have "{j. path_exists fs (cand j)} \<subseteq> cand -` (fst ` set fs \<union> {Path True [], Path False []})"
  proof
    fix j assume "j \<in> {j. path_exists fs (cand j)}"
    then have "lookup fs (cand j) \<noteq> None" by (simp add: path_exists_def)
    then have "comps (cand j) = [] \<or> cand j \<in> fst ` set fs"
      by (auto simp: lookup_def split: if_splits dest: map_of_SomeD intro: rev_image_eqI)
    moreover have "comps (cand j) = [] \<Longrightarrow> cand j \<in> {Path True [], Path False []}"
      by (cases "cand j") auto
    ultimately show "j \<in> cand -` (fst ` set fs \<union> {Path True [], Path False []})" by auto
  qed
  moreover have "finite (cand -` (fst ` set fs \<union> {Path True [], Path False []}))"
    using assms by (intro finite_vimageI) auto
  ultimately show ?thesis by (rule finite_subset)
qed

lemma first_free_returns:
  assumes inj: "inj cand"
  shows "\<exists>t. first_free fs cand target i = Some t \<and> \<not> path_exists fs t \<and>
           (if path_exists fs target
            then \<exists>j\<ge>i. t = cand j \<and> (\<forall>k. i \<le> k \<and> k < j \<longrightarrow> path_exists fs (cand k))
            else t = target)"
proof (cases "path_exists fs target")
  case False
  then show ?thesis by (simp add: first_free_here)
next
  case True
  have "\<exists>j. i \<le> j \<and> \<not> path_exists fs (cand j)"
  proof (rule ccontr)
    assume "\<not> ?thesis"
    then have "{i..} \<subseteq> {j. path_exists fs (cand j)}" by auto
    then have "finite {i..}" using exists_finite[OF inj] finite_subset by blast
    then show False by (simp add: infinite_Ici)
  qed
  then obtain j0 where j0: "i \<le> j0 \<and> \<not> path_exists fs (cand j0)" by blast
  define j where "j = (LEAST j. i \<le> j \<and> \<not> path_exists fs (cand j))"
  have jp: "i \<le> j \<and> \<not> path_exists fs (cand j)" unfolding j_def using j0 by (rule LeastI)
  have below: "\<And>k. i \<le> k \<Longrightarrow> k < j \<Longrightarrow> path_exists fs (cand k)"
    unfolding j_def using not_less_Least by blast
  have "first_free fs cand target i = Some (cand j)"
    using True jp below by (intro first_free_run) auto
  then show ?thesis using True jp below by auto
qed

lemma lookup_update:
  "lookup (AList.update p n fs) q =
     (if comps q = [] then Some Dir else if q = p then Some n else lookup fs q)"
  by (simp add: lookup_def update_conv')

lemma mkdir_parents_child:
  "\<not> path_exists fs p \<Longrightarrow> is_dir fs (parent p) \<Longrightarrow> mkdir_parents fs p = Inr (AList.update p Dir fs)"
  by (subst mkdir_parents.simps) (simp add: path_exists_def is_dir_def)

lemma parent_child: "parent (child d c) = d"
  by (cases d) (simp add: parent_def child_def)

lemma pdiv_valid: "valid_comp c \<Longrightarrow> pdiv d (Path_of_str c) = child d c"
  by (simp add: Path_of_str_valid pdiv_def child_def)

lemma comps_child: "comps (child d c) \<noteq> []"
  by (simp add: child_def)

lemma child_inj: "child d a = child d b \<Longrightarrow> a = b"
  by (simp add: child_def)

subsection \<open>Unique folders\<close>

lemma str_nat_digits: "set (str_nat n) \<subseteq> set ''0123456789''"
proof (induction n rule: str_nat.induct)
  case (1 n)
  have d: "\<And>k. k < 10 \<Longrightarrow> ''0123456789'' ! k \<in> set ''0123456789''"
    by (rule nth_mem) simp
  show ?case
  proof (cases "n < 10")
    case True
    then show ?thesis using d[of n] by (subst str_nat.simps) simp
  next
    case False
    then show ?thesis using 1 d[of "n mod 10"] by (subst str_nat.simps) simp
  qed
qed

lemma numbered_valid:
  assumes "valid_comp base"
  shows "valid_comp (base @ ''_'' @ str_nat i)"
proof -
  have "CHR ''/'' \<notin> set (str_nat i)" using str_nat_digits[of i] by auto
  moreover have "base @ ''_'' @ str_nat i \<noteq> ''.''" using assms by (cases base) (auto simp: valid_comp_def)
  ultimately show ?thesis using assms by (simp add: valid_comp_def)
qed

lemma numbered_inj: "inj (\<lambda>i. child d (base @ ''_'' @ str_nat i))"
  by (rule injI) (auto dest: child_inj str_nat_inj)

lemma str_nat_1: "str_nat (Suc 0) = ''1''"
  by (subst str_nat.simps) simp

lemma unique_subdir_ok:
  assumes d: "is_dir fs d"
  shows "\<exists>t. unique_subdir U fs d name = Some (Inr (t, AList.update t Dir fs))
           \<and> \<not> path_exists fs t \<and> parent t = d
           \<and> (if path_exists fs (child d (safe_name U name))
               then \<exists>j\<ge>1. t = child d (safe_name U name @ ''_'' @ str_nat j) \<and>
                      (\<forall>k. 1 \<le> k \<and> k < j \<longrightarrow> path_exists fs (child d (safe_name U name @ ''_'' @ str_nat k)))
               else t = child d (safe_name U name))"
proof -
  define base where "base = safe_name U name"
  have vb: "valid_comp base" unfolding base_def using safe_name_sanitized sanitized_valid_comp by blast
  have c: "(\<lambda>i. pdiv d (Path_of_str (base @ ''_'' @ str_nat i))) = (\<lambda>i. child d (base @ ''_'' @ str_nat i))"
    using numbered_valid[OF vb] by (simp add: pdiv_valid)
  have t0: "pdiv d (Path_of_str base) = child d base" using vb by (rule pdiv_valid)
  obtain t where t: "first_free fs (\<lambda>i. child d (base @ ''_'' @ str_nat i)) (child d base) 1 = Some t"
    and nt: "\<not> path_exists fs t"
    and sh: "if path_exists fs (child d base)
             then \<exists>j\<ge>1. t = child d (base @ ''_'' @ str_nat j) \<and>
                    (\<forall>k. 1 \<le> k \<and> k < j \<longrightarrow> path_exists fs (child d (base @ ''_'' @ str_nat k)))
             else t = child d base"
    using first_free_returns[OF numbered_inj, of fs d base "child d base" 1] by blast
  have pt: "parent t = d" using sh by (auto simp: parent_child split: if_splits)
  have "mkdir_parents fs t = Inr (AList.update t Dir fs)"
    using nt pt d by (simp add: mkdir_parents_child)
  moreover have "unique_subdir U fs d name =
      (case first_free fs (\<lambda>i. child d (base @ ''_'' @ str_nat i)) (child d base) 1 of
         None \<Rightarrow> None
       | Some target \<Rightarrow>
           (case mkdir_parents fs target of
              Inl e \<Rightarrow> Some (Inl e)
            | Inr fs' \<Rightarrow> Some (Inr (target, fs'))))"
    unfolding unique_subdir_def Let_def base_def[symmetric] c t0 ..
  ultimately have "unique_subdir U fs d name = Some (Inr (t, AList.update t Dir fs))"
    using t by simp
  then show ?thesis using nt pt sh unfolding base_def by blast
qed

text \<open>
  Claim C6, amended. In a parent directory that exists, two calls of
  \<open>unique_subdir\<close> with the same name return, each of them, a path that did not
  exist before that call; the two are distinct entries of the parent, and both are
  directories afterwards. They are named \<open>base\<close> and \<open>base_1\<close> (\<open>base\<close>
  the sanitized name) when neither of these names was taken before the first call.
  Both calls return: the search for a free name ends.
\<close>

theorem unique_subdir_twice:
  assumes d: "is_dir fs d"
  shows "\<exists>t1 t2 fs1 fs2.
     unique_subdir U fs d name = Some (Inr (t1, fs1)) \<and>
     unique_subdir U fs1 d name = Some (Inr (t2, fs2)) \<and>
     t1 \<noteq> t2 \<and> is_dir fs2 t1 \<and> is_dir fs2 t2 \<and>
     \<not> path_exists fs t1 \<and> \<not> path_exists fs1 t2 \<and>
     parent t1 = d \<and> parent t2 = d \<and>
     (\<not> path_exists fs (child d (safe_name U name)) \<and>
      \<not> path_exists fs (child d (safe_name U name @ ''_1'')) \<longrightarrow>
        t1 = child d (safe_name U name) \<and> t2 = child d (safe_name U name @ ''_1''))"
proof -
  define base where "base = safe_name U name"
  obtain t1 where u1: "unique_subdir U fs d name = Some (Inr (t1, AList.update t1 Dir fs))"
    and n1: "\<not> path_exists fs t1" and p1: "parent t1 = d"
    and s1: "if path_exists fs (child d base)
             then \<exists>j\<ge>1. t1 = child d (base @ ''_'' @ str_nat j) \<and>
                    (\<forall>k. 1 \<le> k \<and> k < j \<longrightarrow> path_exists fs (child d (base @ ''_'' @ str_nat k)))
             else t1 = child d base"
    using unique_subdir_ok[OF d, of U name] unfolding base_def by blast
  define fs1 where "fs1 = AList.update t1 Dir fs"
  have d_ne: "d \<noteq> t1" using d n1 by (auto simp: is_dir_def path_exists_def)
  have d1: "is_dir fs1 d" using d d_ne by (simp add: fs1_def is_dir_def lookup_update)
  have e1: "path_exists fs1 t1" by (simp add: fs1_def path_exists_def lookup_update)
  obtain t2 where u2: "unique_subdir U fs1 d name = Some (Inr (t2, AList.update t2 Dir fs1))"
    and n2: "\<not> path_exists fs1 t2" and p2: "parent t2 = d"
    and s2: "if path_exists fs1 (child d base)
             then \<exists>j\<ge>1. t2 = child d (base @ ''_'' @ str_nat j) \<and>
                    (\<forall>k. 1 \<le> k \<and> k < j \<longrightarrow> path_exists fs1 (child d (base @ ''_'' @ str_nat k)))
             else t2 = child d base"
    using unique_subdir_ok[OF d1, of U name] unfolding base_def by blast
  define fs2 where "fs2 = AList.update t2 Dir fs1"
  have ne: "t1 \<noteq> t2" using e1 n2 by auto
  have i1: "is_dir fs2 t1" using ne by (simp add: fs2_def fs1_def is_dir_def lookup_update)
  have i2: "is_dir fs2 t2" by (simp add: fs2_def is_dir_def lookup_update)
  have names: "t1 = child d base \<and> t2 = child d (base @ ''_1'')"
    if f0: "\<not> path_exists fs (child d base)" and f1: "\<not> path_exists fs (child d (base @ ''_1''))"
  proof -
    have t1: "t1 = child d base" using s1 f0 by simp
    then have "path_exists fs1 (child d base)" using e1 by simp
    then obtain j where j: "j \<ge> 1" "t2 = child d (base @ ''_'' @ str_nat j)"
      and below: "\<forall>k. 1 \<le> k \<and> k < j \<longrightarrow> path_exists fs1 (child d (base @ ''_'' @ str_nat k))"
      using s2 by auto
    have c1: "child d (base @ ''_1'') \<noteq> t1" unfolding t1 by (auto dest: child_inj)
    have "\<not> path_exists fs1 (child d (base @ ''_1''))"
      using f1 c1 by (auto simp: fs1_def path_exists_def lookup_update comps_child split: if_splits)
    moreover have "1 < j \<Longrightarrow> path_exists fs1 (child d (base @ ''_'' @ str_nat 1))"
      using below by blast
    ultimately have "\<not> 1 < j" by (auto simp: str_nat_1)
    then have "j = 1" using j(1) by simp
    then show ?thesis using t1 j(2) by (simp add: str_nat_1)
  qed
  show ?thesis
    using u1 u2 ne i1 i2 n1 n2 p1 p2 names unfolding fs1_def fs2_def base_def by blast
qed

theorem unique_subdir_twice_witness:
  "is_dir [(Path True [''out''], Dir)] (Path True [''out''])
   \<and> \<not> path_exists [(Path True [''out''], Dir)] (Path True [''out'', ''My_Model''])
   \<and> \<not> path_exists [(Path True [''out''], Dir)] (Path True [''out'', ''My_Model_1''])
   \<and> (\<exists>t1 t2 fs1 fs2.
         unique_subdir (\<lambda>_. UOther) [(Path True [''out''], Dir)] (Path True [''out'']) ''My Model''
           = Some (Inr (t1, fs1)) \<and>
         unique_subdir (\<lambda>_. UOther) fs1 (Path True [''out'']) ''My Model'' = Some (Inr (t2, fs2)) \<and>
         t1 = Path True [''out'', ''My_Model''] \<and> t2 = Path True [''out'', ''My_Model_1''] \<and>
         t1 \<noteq> t2 \<and> is_dir fs2 t1 \<and> is_dir fs2 t2)"
proof -
  let ?fs = "[(Path True [''out''], Dir)]" and ?d = "Path True [''out'']"
  have h: "is_dir ?fs ?d" by (simp add: is_dir_def lookup_def)
  have sn: "safe_name (\<lambda>_. UOther) ''My Model'' = ''My_Model''" by code_simp
  have c0: "child ?d ''My_Model'' = Path True [''out'', ''My_Model'']"
    and c1: "child ?d (''My_Model'' @ ''_1'') = Path True [''out'', ''My_Model_1'']"
    by (simp_all add: child_def)
  have f0: "\<not> path_exists ?fs (Path True [''out'', ''My_Model''])"
    and f1: "\<not> path_exists ?fs (Path True [''out'', ''My_Model_1''])"
    by (simp_all add: path_exists_def lookup_def)
  from unique_subdir_twice[OF h, of "\<lambda>_. UOther" "''My Model''"] sn c0 c1 f0 f1
  show ?thesis using h by (metis (no_types, lifting))
qed

text \<open>
  The claim as stated fails where the base name is taken before the first call: in
  \<open>/out\<close> holding a folder \<open>x\<close>, the two calls for \<open>x\<close> return
  \<open>/out/x_1\<close> and \<open>/out/x_2\<close>.
\<close>

theorem unique_subdir_base_taken:
  "unique_subdir (\<lambda>_. UOther)
     [(Path True [''out''], Dir), (Path True [''out'', ''x''], Dir)] (Path True [''out'']) ''x''
   = Some (Inr (Path True [''out'', ''x_1''],
        [(Path True [''out''], Dir), (Path True [''out'', ''x''], Dir), (Path True [''out'', ''x_1''], Dir)]))
   \<and> unique_subdir (\<lambda>_. UOther)
     [(Path True [''out''], Dir), (Path True [''out'', ''x''], Dir), (Path True [''out'', ''x_1''], Dir)]
     (Path True [''out'']) ''x''
   = Some (Inr (Path True [''out'', ''x_2''],
        [(Path True [''out''], Dir), (Path True [''out'', ''x''], Dir), (Path True [''out'', ''x_1''], Dir),
         (Path True [''out'', ''x_2''], Dir)]))
   \<and> safe_name (\<lambda>_. UOther) ''x'' = ''x''"
  by code_simp

subsection \<open>The layout writer\<close>

lemma mkdir_parents_is_dir: "mkdir_parents fs p = Inr fs' \<Longrightarrow> is_dir fs' p"
proof (induction fs p arbitrary: fs' rule: mkdir_parents.induct)
  case (1 fs p)
  from 1(2) show ?case
    by (subst (asm) mkdir_parents.simps)
       (auto simp: is_dir_def lookup_def update_conv' split: option.splits node.splits sum.splits if_splits)
qed

lemma utf8_encode_append: "utf8_encode (a @ b) = utf8_encode a @ utf8_encode b"
  by (simp add: utf8_encode_def)

lemma utf8_encode_newline: "utf8_encode [CHR 0x0A] = [CHR 0x0A]"
  by (simp add: utf8_encode_def is_ascii_def)

lemma child_not_self: "child d c \<noteq> d"
proof
  assume "child d c = d"
  then have "length (comps (child d c)) = length (comps d)" by simp
  then show False by (simp add: child_def)
qed

lemma sql_name_valid: "CHR ''/'' \<notin> set pre \<Longrightarrow> CHR ''/'' \<notin> set name \<Longrightarrow> valid_comp (pre @ name @ ''.sql'')"
  by (auto simp: valid_comp_def append_eq_Cons_conv)

lemma after_writes_Nil: "after_writes fs [] q = lookup fs q"
  by (simp add: after_writes_def)

lemma after_writes_Cons:
  "comps p \<noteq> [] \<Longrightarrow>
   after_writes (AList.update p (File data) fs) ws q = after_writes fs ((p, data) # ws) q"
  by (auto simp: after_writes_def map_add_def lookup_def update_conv' split: option.splits)

lemma not_dir_after_write: "\<not> is_dir fs q \<Longrightarrow> \<not> is_dir (AList.update p (File data) fs) q"
  by (auto simp: is_dir_def lookup_def update_conv' split: if_splits)

lemma write_entries_ok:
  assumes "is_dir fs out_dir" and "CHR ''/'' \<notin> set pre"
    and "list_all (\<lambda>(name, sql). CHR ''/'' \<notin> set name) es"
    and "list_all (\<lambda>(p, data). \<not> is_dir fs p) (planned_writes U out_dir header pre es)"
  shows "\<exists>fs'. write_entries U out_dir header pre es (created, fs) =
            Inr (created @ map fst (planned_writes U out_dir header pre es), fs')
          \<and> (\<forall>q. lookup fs' q = after_writes fs (planned_writes U out_dir header pre es) q)"
  using assms
proof (induction es arbitrary: created fs)
  case Nil
  then show ?case by (simp add: planned_writes_def after_writes_Nil)
next
  case (Cons e rest)
  obtain name sql where e: "e = (name, sql)" by (cases e)
  define p where "p = child out_dir (pre @ name @ ''.sql'')"
  define data where "data = utf8_encode (header @ strip (isspace U) sql @ [CHR 0x0A])"
  define fs1 where "fs1 = AList.update p (File data) fs"
  have v: "valid_comp (pre @ name @ ''.sql'')" using Cons.prems e by (simp add: sql_name_valid)
  have pp: "pdiv out_dir (Path_of_str (pre @ name @ ''.sql'')) = p" using v by (simp add: pdiv_valid p_def)
  have nd: "\<not> is_dir fs p" using Cons.prems(4) e by (simp add: planned_writes_def p_def)
  have par: "lookup fs (parent p) = Some Dir" using Cons.prems(1) by (simp add: p_def parent_child is_dir_def)
  have w: "write_text fs p (header @ strip (isspace U) sql @ [CHR 0x0A]) = Inr fs1"
    using nd par by (auto simp: write_text_def write_file_def fs1_def data_def is_dir_def
        split: option.splits node.splits)
  have cp: "comps p \<noteq> []" by (simp add: p_def comps_child)
  have "out_dir \<noteq> p" unfolding p_def by (metis child_not_self)
  then have d1: "is_dir fs1 out_dir" using Cons.prems(1)
    by (simp add: fs1_def is_dir_def lookup_update)
  have pw: "planned_writes U out_dir header pre (e # rest) = (p, data) # planned_writes U out_dir header pre rest"
    by (simp add: planned_writes_def e p_def data_def)
  have "list_all (\<lambda>(p, data). \<not> is_dir fs p) (planned_writes U out_dir header pre rest)"
    using Cons.prems(4) unfolding pw by simp
  then have n1: "list_all (\<lambda>(p, data). \<not> is_dir fs1 p) (planned_writes U out_dir header pre rest)"
    unfolding fs1_def list_all_iff using not_dir_after_write by fastforce
  have r1: "list_all (\<lambda>(name, sql). CHR ''/'' \<notin> set name) rest" using Cons.prems(3) by simp
  obtain fs' where a: "write_entries U out_dir header pre rest (created @ [p], fs1) =
            Inr ((created @ [p]) @ map fst (planned_writes U out_dir header pre rest), fs')"
    and b: "\<forall>q. lookup fs' q = after_writes fs1 (planned_writes U out_dir header pre rest) q"
    using Cons.IH[OF d1 Cons.prems(2) r1 n1, of "created @ [p]"] by blast
  have "write_entries U out_dir header pre (e # rest) (created, fs) =
          Inr (created @ map fst (planned_writes U out_dir header pre (e # rest)), fs')"
    using a w pp pw by (simp add: e Let_def)
  moreover have "\<forall>q. lookup fs' q = after_writes fs (planned_writes U out_dir header pre (e # rest)) q"
    using b cp by (simp add: pw fs1_def after_writes_Cons)
  ultimately show ?case by blast
qed

lemma planned_writes_shape:
  "list_all (\<lambda>(p, data). parent p = out_dir \<and> data \<noteq> [] \<and> last data = CHR 0x0A)
     (planned_writes U out_dir header pre es)"
  by (auto simp: planned_writes_def list_all_iff parent_child utf8_encode_append utf8_encode_newline)

lemma after_writes_append:
  "after_writes fs (ws1 @ ws2) q =
     (case map_of (rev ws2) q of Some data \<Rightarrow> Some (File data) | None \<Rightarrow> after_writes fs ws1 q)"
  by (auto simp: after_writes_def map_add_def split: option.splits)

lemma after_writes_file:
  assumes "(p, data) \<in> set ws"
  shows "\<exists>d. (p, d) \<in> set ws \<and> after_writes fs ws p = Some (File d)"
proof -
  have "p \<in> fst ` set (rev ws)" using assms by force
  then obtain d where d: "map_of (rev ws) p = Some d"
    by (metis domD dom_map_of_conv_image_fst)
  then have "(p, d) \<in> set ws" using map_of_SomeD by fastforce
  then show ?thesis using d by (auto simp: after_writes_def)
qed

text \<open>
  Claim C7, amended. For every call of the layout writer in which no dataset name and
  no value-set id holds a path separator, the root can be created, and no file to
  write is a directory already: the call returns the paths \<open>name.sql\<close> of the
  datasets and \<open>lv_id.sql\<close> of the value-sets, in order and with repetitions;
  each is an entry of the root itself; afterwards each holds a file that ends with a
  newline, namely what the last entry of that file name wrote (a later entry
  overwrites an earlier one, no name is changed); every other path is as before.
\<close>

theorem write_sql_otbi_layout:
  assumes mk: "mkdir_parents fs out_dir = Inr fs0"
    and names: "list_all (\<lambda>(name, sql). CHR ''/'' \<notin> set name) (datasets @ valuesets)"
    and free: "list_all (\<lambda>(p, data). \<not> is_dir fs0 p)
                 (planned_writes U out_dir (sql_header header_title) [] datasets @
                  planned_writes U out_dir (sql_header header_title) ''lv_'' valuesets)"
  shows "\<exists>fs'.
      write_sql_otbi U fs out_dir datasets valuesets header_title =
        Inr (map fst (planned_writes U out_dir (sql_header header_title) [] datasets @
                      planned_writes U out_dir (sql_header header_title) ''lv_'' valuesets), fs')
    \<and> (\<forall>q. lookup fs' q =
            after_writes fs0 (planned_writes U out_dir (sql_header header_title) [] datasets @
                              planned_writes U out_dir (sql_header header_title) ''lv_'' valuesets) q)
    \<and> list_all (\<lambda>(p, data). parent p = out_dir \<and>
                  (\<exists>d. lookup fs' p = Some (File d) \<and> d \<noteq> [] \<and> last d = CHR 0x0A))
         (planned_writes U out_dir (sql_header header_title) [] datasets @
          planned_writes U out_dir (sql_header header_title) ''lv_'' valuesets)"
proof -
  define h where "h = sql_header header_title"
  define Wd where "Wd = planned_writes U out_dir h [] datasets"
  define Wv where "Wv = planned_writes U out_dir h ''lv_'' valuesets"
  have d0: "is_dir fs0 out_dir" using mk by (rule mkdir_parents_is_dir)
  have nd: "list_all (\<lambda>(name, sql). CHR ''/'' \<notin> set name) datasets"
    and nv: "list_all (\<lambda>(name, sql). CHR ''/'' \<notin> set name) valuesets" using names by simp_all
  have fd: "list_all (\<lambda>(p, data). \<not> is_dir fs0 p) Wd" and fv: "list_all (\<lambda>(p, data). \<not> is_dir fs0 p) Wv"
    using free by (simp_all add: Wd_def Wv_def h_def)
  obtain fs1 where w1: "write_entries U out_dir h [] datasets ([], fs0) = Inr ([] @ map fst Wd, fs1)"
    and l1: "\<forall>q. lookup fs1 q = after_writes fs0 Wd q"
    using write_entries_ok[OF d0 _ nd, of "[]" U h "[]"] fd unfolding Wd_def by auto
  have shape_d: "list_all (\<lambda>(p, data). parent p = out_dir \<and> data \<noteq> [] \<and> last data = CHR 0x0A) Wd"
    and shape_v: "list_all (\<lambda>(p, data). parent p = out_dir \<and> data \<noteq> [] \<and> last data = CHR 0x0A) Wv"
    unfolding Wd_def Wv_def by (rule planned_writes_shape)+
  have "map_of (rev Wd) out_dir = None"
  proof (rule ccontr)
    assume "map_of (rev Wd) out_dir \<noteq> None"
    then obtain d where "(out_dir, d) \<in> set Wd" using map_of_SomeD by fastforce
    then obtain c where "out_dir = child out_dir c" by (auto simp: Wd_def planned_writes_def)
    then show False by (metis child_not_self)
  qed
  then have d1: "is_dir fs1 out_dir" using d0 l1 by (simp add: is_dir_def after_writes_def)
  have f1: "list_all (\<lambda>(p, data). \<not> is_dir fs1 p) Wv"
    using fv l1 by (auto simp: list_all_iff is_dir_def after_writes_def split: option.splits)
  obtain fs2 where w2: "write_entries U out_dir h ''lv_'' valuesets (map fst Wd, fs1) =
        Inr (map fst Wd @ map fst Wv, fs2)"
    and l2: "\<forall>q. lookup fs2 q = after_writes fs1 Wv q"
    using write_entries_ok[OF d1 _ nv, of "''lv_''" U h "map fst Wd"] f1 unfolding Wv_def by auto
  have res: "write_sql_otbi U fs out_dir datasets valuesets header_title = Inr (map fst (Wd @ Wv), fs2)"
    using mk w1 w2 by (simp add: write_sql_otbi_def Let_def h_def)
  have look: "\<forall>q. lookup fs2 q = after_writes fs0 (Wd @ Wv) q"
  proof
    fix q
    have "lookup fs2 q = after_writes fs1 Wv q" using l2 by simp
    also have "\<dots> = (case map_of (rev Wv) q of Some data \<Rightarrow> Some (File data)
                          | None \<Rightarrow> after_writes fs0 Wd q)"
      by (cases "map_of (rev Wv) q") (simp_all add: after_writes_def[of fs1] l1)
    also have "\<dots> = after_writes fs0 (Wd @ Wv) q" by (simp add: after_writes_append)
    finally show "lookup fs2 q = after_writes fs0 (Wd @ Wv) q" .
  qed
  have files: "list_all (\<lambda>(p, data). parent p = out_dir \<and>
                  (\<exists>d. lookup fs2 p = Some (File d) \<and> d \<noteq> [] \<and> last d = CHR 0x0A)) (Wd @ Wv)"
    unfolding list_all_iff
  proof
    fix x assume x: "x \<in> set (Wd @ Wv)"
    obtain p data where pd: "x = (p, data)" by (cases x)
    obtain d where d: "(p, d) \<in> set (Wd @ Wv)" "after_writes fs0 (Wd @ Wv) p = Some (File d)"
      using after_writes_file[of p data "Wd @ Wv" fs0] x pd by auto
    have all: "list_all (\<lambda>(p, data). parent p = out_dir \<and> data \<noteq> [] \<and> last data = CHR 0x0A) (Wd @ Wv)"
      using shape_d shape_v by simp
    then have "parent p = out_dir \<and> d \<noteq> [] \<and> last d = CHR 0x0A"
      using d(1) unfolding list_all_iff by fastforce
    then show "case x of (p, data) \<Rightarrow> parent p = out_dir \<and>
                  (\<exists>d. lookup fs2 p = Some (File d) \<and> d \<noteq> [] \<and> last d = CHR 0x0A)"
      using pd d(2) look by auto
  qed
  show ?thesis using res look files unfolding Wd_def Wv_def h_def by blast
qed

theorem write_sql_otbi_layout_witness:
  "mkdir_parents [(Path True [''out''], Dir)] (Path True [''out'']) = Inr [(Path True [''out''], Dir)]
   \<and> list_all (\<lambda>(name, sql). CHR ''/'' \<notin> set name)
        ([(''A'', ''  select 1 ''), (''B'', ''select 2''), (''A'', ''select 3'')] @ [(''V'', ''select 4'')])
   \<and> (\<exists>fs'. write_sql_otbi (\<lambda>_. UOther) [(Path True [''out''], Dir)] (Path True [''out''])
          [(''A'', ''  select 1 ''), (''B'', ''select 2''), (''A'', ''select 3'')] [(''V'', ''select 4'')] None
        = Inr ([Path True [''out'', ''A.sql''], Path True [''out'', ''B.sql''],
                Path True [''out'', ''A.sql''], Path True [''out'', ''lv_V.sql'']], fs')
        \<and> lookup fs' (Path True [''out'', ''A.sql'']) = Some (File (''select 3'' @ [CHR 0x0A]))
        \<and> lookup fs' (Path True [''out'', ''lv_V.sql'']) = Some (File (''select 4'' @ [CHR 0x0A])))"
proof -
  let ?fs = "[(Path True [''out''], Dir)]" and ?out = "Path True [''out'']"
  let ?ds = "[(''A'', ''  select 1 ''), (''B'', ''select 2''), (''A'', ''select 3'')]"
  let ?vs = "[(''V'', ''select 4'')]"
  let ?W = "planned_writes (\<lambda>_. UOther) ?out (sql_header None) [] ?ds @
            planned_writes (\<lambda>_. UOther) ?out (sql_header None) ''lv_'' ?vs"
  have pw: "?W = [(Path True [''out'', ''A.sql''], ''select 1'' @ [CHR 0x0A]),
                  (Path True [''out'', ''B.sql''], ''select 2'' @ [CHR 0x0A]),
                  (Path True [''out'', ''A.sql''], ''select 3'' @ [CHR 0x0A]),
                  (Path True [''out'', ''lv_V.sql''], ''select 4'' @ [CHR 0x0A])]"
    by code_simp
  have h1: "mkdir_parents ?fs ?out = Inr ?fs" by code_simp
  have h2: "list_all (\<lambda>(name, sql). CHR ''/'' \<notin> set name) (?ds @ ?vs)" by simp
  have h3: "list_all (\<lambda>(p, data). \<not> is_dir ?fs p) ?W" unfolding pw by (simp add: is_dir_def lookup_def)
  from write_sql_otbi_layout[OF h1 h2 h3] obtain fs' where
    r: "write_sql_otbi (\<lambda>_. UOther) ?fs ?out ?ds ?vs None = Inr (map fst ?W, fs')"
    and l: "\<forall>q. lookup fs' q = after_writes ?fs ?W q" by blast
  have "lookup fs' (Path True [''out'', ''A.sql'']) = Some (File (''select 3'' @ [CHR 0x0A]))"
    and "lookup fs' (Path True [''out'', ''lv_V.sql'']) = Some (File (''select 4'' @ [CHR 0x0A]))"
    unfolding l[rule_format] pw by (simp_all add: after_writes_def)
  moreover have "map fst ?W = [Path True [''out'', ''A.sql''], Path True [''out'', ''B.sql''],
                Path True [''out'', ''A.sql''], Path True [''out'', ''lv_V.sql'']]"
    unfolding pw by simp
  ultimately show ?thesis using r h1 h2 by auto
qed

text \<open>
  The claim as stated fails for a name with a separator: the dataset \<open>a/b\<close> is
  written to \<open>b.sql\<close> in the subfolder \<open>a\<close> of the root when that subfolder
  exists, and the call raises when it does not.
\<close>

theorem write_sql_otbi_separator_in_name:
  "write_sql_otbi (\<lambda>_. UOther) [(Path True [''out''], Dir), (Path True [''out'', ''a''], Dir)]
      (Path True [''out'']) [(''a/b'', ''select 1'')] [] None
   = Inr ([Path True [''out'', ''a'', ''b.sql'']],
          [(Path True [''out''], Dir), (Path True [''out'', ''a''], Dir),
           (Path True [''out'', ''a'', ''b.sql''], File (''select 1'' @ [CHR 0x0A]))])
   \<and> parent (Path True [''out'', ''a'', ''b.sql'']) \<noteq> Path True [''out'']
   \<and> write_sql_otbi (\<lambda>_. UOther) [(Path True [''out''], Dir)]
      (Path True [''out'']) [(''a/b'', ''select 1'')] [] None = Inl FileNotFoundError"
  by code_simp

subsection \<open>The data-model parser\<close>

lemma descendants_children: "descendants x = concat (map (\<lambda>c. c # descendants c) (children x))"
  by (cases x) simp

lemma descendants_bex:
  "(\<exists>c \<in> set (descendants x). P c) \<longleftrightarrow>
   (\<exists>y \<in> set (children x). P y \<or> (\<exists>c \<in> set (descendants y). P c))"
  by (cases x) auto

lemma select_under_mem:
  "e \<in> set (select_under outer inner b x) \<longleftrightarrow>
     (b \<and> local_name x = inner \<and> e = x) \<or>
     (local_name e = inner \<and>
        ((local_name x = outer \<and> e \<in> set (children x)) \<or>
         (\<exists>c \<in> set (descendants x). local_name c = outer \<and> e \<in> set (children c))))"
proof (induction x arbitrary: b)
  case (Element l a t cs)
  let ?D = "\<lambda>y. \<exists>c \<in> set (descendants y). local_name c = outer \<and> e \<in> set (children c)"
  let ?C = "\<lambda>y. local_name y = outer \<and> e \<in> set (children y)"
  have ih: "\<And>y. y \<in> set cs \<Longrightarrow>
      e \<in> set (select_under outer inner (l = outer) y) \<longleftrightarrow>
        (l = outer \<and> local_name y = inner \<and> e = y) \<or> (local_name e = inner \<and> (?C y \<or> ?D y))"
    using Element.IH by blast
  have d: "?D (Element l a t cs) \<longleftrightarrow> (\<exists>y \<in> set cs. ?C y \<or> ?D y)"
    by (subst descendants_bex) simp
  have "e \<in> set (concat (map (select_under outer inner (l = outer)) cs)) \<longleftrightarrow>
        (\<exists>y \<in> set cs. e \<in> set (select_under outer inner (l = outer) y))" by simp
  also have "\<dots> \<longleftrightarrow> (\<exists>y \<in> set cs.
       (l = outer \<and> local_name y = inner \<and> e = y) \<or> (local_name e = inner \<and> (?C y \<or> ?D y)))"
    using ih by blast
  also have "\<dots> \<longleftrightarrow> (local_name e = inner \<and> ((l = outer \<and> e \<in> set cs) \<or> ?D (Element l a t cs)))"
    unfolding d by blast
  finally have rec: "e \<in> set (concat (map (select_under outer inner (l = outer)) cs)) \<longleftrightarrow>
      (local_name e = inner \<and> ((l = outer \<and> e \<in> set cs) \<or> ?D (Element l a t cs)))" .
  have "e \<in> set (select_under outer inner b (Element l a t cs)) \<longleftrightarrow>
        (b \<and> l = inner \<and> e = Element l a t cs) \<or>
        e \<in> set (concat (map (select_under outer inner (l = outer)) cs))"
    by auto
  then show ?case unfolding rec by simp
qed

lemma xpath_children_of_mem:
  "e \<in> set (xpath_children_of outer inner root) \<longleftrightarrow>
     local_name e = inner \<and>
     (\<exists>c \<in> set (descendants root). local_name c = outer \<and> e \<in> set (children c))"
proof -
  have "e \<in> set (xpath_children_of outer inner root) \<longleftrightarrow>
        (\<exists>x \<in> set (children root). e \<in> set (select_under outer inner False x))"
    by (auto simp: xpath_children_of_def)
  also have "\<dots> \<longleftrightarrow> (\<exists>x \<in> set (children root). local_name e = inner \<and>
          ((local_name x = outer \<and> e \<in> set (children x)) \<or>
           (\<exists>c \<in> set (descendants x). local_name c = outer \<and> e \<in> set (children c))))"
    by (simp add: select_under_mem)
  also have "\<dots> \<longleftrightarrow> local_name e = inner \<and>
     (\<exists>c \<in> set (descendants root). local_name c = outer \<and> e \<in> set (children c))"
    by (subst (2) descendants_bex) blast
  finally show ?thesis .
qed

lemma subseq_concat_map:
  "(\<And>c. c \<in> set cs \<Longrightarrow> subseq (f c) (g c)) \<Longrightarrow> subseq (concat (map f cs)) (concat (map g cs))"
proof (induction cs)
  case Nil
  then show ?case by simp
next
  case (Cons c cs)
  have "subseq (f c) (g c)" using Cons.prems by simp
  moreover have "subseq (concat (map f cs)) (concat (map g cs))" using Cons by simp
  ultimately have "subseq (f c @ concat (map f cs)) (g c @ concat (map g cs))"
    by (rule list_emb_append_mono)
  then show ?case by simp
qed

lemma select_under_subseq: "subseq (select_under outer inner b x) (x # descendants x)"
proof (induction x arbitrary: b)
  case (Element l a t cs)
  let ?S = "concat (map (select_under outer inner (l = outer)) cs)"
  let ?D = "concat (map (\<lambda>c. c # descendants c) cs)"
  have sd: "subseq ?S ?D"
    using Element.IH by (intro subseq_concat_map) simp
  show ?case
  proof (cases "b \<and> l = inner")
    case True
    then have "select_under outer inner b (Element l a t cs) = Element l a t cs # ?S" by simp
    moreover have "subseq (Element l a t cs # ?S) (Element l a t cs # ?D)" using sd by simp
    ultimately show ?thesis by simp
  next
    case False
    then have "select_under outer inner b (Element l a t cs) = ?S" by auto
    moreover have "subseq ?S (Element l a t cs # ?D)" using sd by (rule list_emb_Cons)
    ultimately show ?thesis by simp
  qed
qed

lemma xpath_children_of_subseq: "subseq (xpath_children_of outer inner root) (descendants root)"
proof -
  have "subseq (concat (map (select_under outer inner False) (children root)))
               (concat (map (\<lambda>c. c # descendants c) (children root)))"
    by (intro subseq_concat_map) (rule select_under_subseq)
  then show ?thesis by (subst descendants_children) (simp add: xpath_children_of_def)
qed

lemma map_filter_if:
  "List.map_filter (\<lambda>x. if P x then Some (g x) else None) xs = map g (filter P xs)"
  by (induction xs) simp_all

lemma sql_texts_eq:
  "sql_texts U ds =
     filter (\<lambda>s. s \<noteq> []) (map (trimmed_text U) (filter (\<lambda>c. local_name c = ''sql'') (children ds)))"
  by (simp add: sql_texts_def trimmed_text_def filter_map comp_def)

lemma sql_texts_nonempty:
  "sql_texts U ds \<noteq> [] \<longleftrightarrow> list_ex (\<lambda>c. local_name c = ''sql'' \<and> trimmed_text U c \<noteq> []) (children ds)"
  by (auto simp: sql_texts_eq list_ex_iff filter_empty_conv)

lemma named_sql_eq:
  "named_sql U outer inner attr dflt root =
     map (\<lambda>ds. (safe_name U (get_or ds attr dflt), join [CHR 0x0A, CHR 0x0A] (sql_texts U ds)))
       (filter (\<lambda>ds. sql_texts U ds \<noteq> []) (xpath_children_of outer inner root))"
  unfolding named_sql_def Let_def by (rule map_filter_if)

lemma join_not_Nil: "xs \<noteq> [] \<Longrightarrow> hd xs \<noteq> [] \<Longrightarrow> join sep xs \<noteq> []"
  using join_hd by blast

lemma named_sql_shape:
  "list_all (\<lambda>(name, sql). sanitized U name \<and> sql \<noteq> []) (named_sql U outer inner attr dflt root)"
proof -
  have "\<And>ds. sql_texts U ds \<noteq> [] \<Longrightarrow> join [CHR 0x0A, CHR 0x0A] (sql_texts U ds) \<noteq> []"
  proof -
    fix ds assume ne: "sql_texts U ds \<noteq> []"
    then have "hd (sql_texts U ds) \<in> set (sql_texts U ds)" by simp
    then have "hd (sql_texts U ds) \<noteq> []" unfolding sql_texts_eq by auto
    then show "join [CHR 0x0A, CHR 0x0A] (sql_texts U ds) \<noteq> []" using ne by (rule join_not_Nil[rotated])
  qed
  then show ?thesis by (auto simp: named_sql_eq list_all_iff safe_name_sanitized)
qed

lemma sanitized_no_sep: "sanitized U n \<Longrightarrow> CHR ''/'' \<notin> set n"
  using sanitized_valid_comp by (auto simp: valid_comp_def)

lemma planned_writes_paths: "map fst (planned_writes U out_dir header pre es) = sql_paths out_dir pre es"
  by (simp add: planned_writes_def sql_paths_def comp_def case_prod_unfold)

lemma write_sql_otbi_parsed:
  assumes mk: "mkdir_parents fs0 out_dir = Inr fs1"
    and free: "list_all (\<lambda>p. \<not> is_dir fs1 p) (sql_paths out_dir [] datasets @ sql_paths out_dir ''lv_'' valuesets)"
    and sd: "list_all (\<lambda>(name, sql). sanitized U name \<and> sql \<noteq> []) datasets"
    and sv: "list_all (\<lambda>(name, sql). sanitized U name \<and> sql \<noteq> []) valuesets"
  shows "\<exists>fs'. write_sql_otbi U fs0 out_dir datasets valuesets title =
           Inr (sql_paths out_dir [] datasets @ sql_paths out_dir ''lv_'' valuesets, fs')"
proof -
  have names: "list_all (\<lambda>(name, sql). CHR ''/'' \<notin> set name) (datasets @ valuesets)"
    using sd sv sanitized_no_sep by (fastforce simp: list_all_iff)
  let ?W = "planned_writes U out_dir (sql_header title) [] datasets @
            planned_writes U out_dir (sql_header title) ''lv_'' valuesets"
  have "map fst ?W = sql_paths out_dir [] datasets @ sql_paths out_dir ''lv_'' valuesets"
    by (simp add: planned_writes_paths)
  then have "list_all (\<lambda>p. \<not> is_dir fs1 p) (map fst ?W)" using free by simp
  then have fr: "list_all (\<lambda>(p, data). \<not> is_dir fs1 p) ?W"
    by (auto simp: list_all_iff case_prod_unfold)
  from write_sql_otbi_layout[OF mk names fr] obtain fs' where
    "write_sql_otbi U fs0 out_dir datasets valuesets title = Inr (map fst ?W, fs')" by blast
  then show ?thesis by (simp add: planned_writes_paths)
qed

text \<open>
  Claim C4, amended. For every data-model file that is read and parsed, the parser
  returns, in document order, one pair for every \<open>dataSet\<close> element that is a
  child of a \<open>dataSets\<close> element below the root (the root itself does not count
  as a container) and has an SQL child with non-empty trimmed text. The pair's name is
  the sanitized \<open>name\<close> attribute, \<open>"Dataset"\<close> when the attribute is absent or
  empty; its text is the trimmed non-empty texts of the SQL children, joined by a
  blank line. The other datasets give no pair. Every name returned is sanitized and
  every text non-empty, so that the layout writer, where it can create the root and no
  directory stands in the way, writes exactly the files \<open>name.sql\<close> of the pairs
  (and \<open>lv_id.sql\<close> of the value sets), one per pair, in the root.
\<close>

theorem parse_datamodel_xdm_datasets:
  assumes fl: "lookup fs xdm_path = Some (File data)" and parsed: "parser data = Some root"
  shows "\<exists>datasets valuesets.
      parse_datamodel_xdm U parser fs xdm_path = Inr (datasets, valuesets)
    \<and> datasets =
        map (\<lambda>ds. (safe_name U (get_or ds ''name'' ''Dataset''),
                   join [CHR 0x0A, CHR 0x0A]
                     (filter (\<lambda>s. s \<noteq> [])
                        (map (trimmed_text U) (filter (\<lambda>c. local_name c = ''sql'') (children ds))))))
          (filter (\<lambda>ds. list_ex (\<lambda>c. local_name c = ''sql'' \<and> trimmed_text U c \<noteq> []) (children ds))
             (xpath_children_of ''dataSets'' ''dataSet'' root))
    \<and> (\<forall>e. e \<in> set (xpath_children_of ''dataSets'' ''dataSet'' root) \<longleftrightarrow>
            local_name e = ''dataSet'' \<and>
            (\<exists>c \<in> set (descendants root). local_name c = ''dataSets'' \<and> e \<in> set (children c)))
    \<and> subseq (xpath_children_of ''dataSets'' ''dataSet'' root) (descendants root)
    \<and> list_all (\<lambda>(name, sql). sanitized U name \<and> sql \<noteq> []) datasets
    \<and> (\<forall>fs0 out_dir fs1 title.
          mkdir_parents fs0 out_dir = Inr fs1 \<and>
          list_all (\<lambda>p. \<not> is_dir fs1 p)
            (sql_paths out_dir [] datasets @ sql_paths out_dir ''lv_'' valuesets) \<longrightarrow>
          (\<exists>fs'. write_sql_otbi U fs0 out_dir datasets valuesets title =
             Inr (sql_paths out_dir [] datasets @ sql_paths out_dir ''lv_'' valuesets, fs')))"
proof -
  define datasets where "datasets = named_sql U ''dataSets'' ''dataSet'' ''name'' ''Dataset'' root"
  define valuesets where "valuesets = named_sql U ''valueSets'' ''valueSet'' ''id'' ''ValueSet'' root"
  have r: "parse_datamodel_xdm U parser fs xdm_path = Inr (datasets, valuesets)"
    using fl parsed by (simp add: parse_datamodel_xdm_def datasets_def valuesets_def)
  have eq: "datasets =
        map (\<lambda>ds. (safe_name U (get_or ds ''name'' ''Dataset''),
                   join [CHR 0x0A, CHR 0x0A]
                     (filter (\<lambda>s. s \<noteq> [])
                        (map (trimmed_text U) (filter (\<lambda>c. local_name c = ''sql'') (children ds))))))
          (filter (\<lambda>ds. list_ex (\<lambda>c. local_name c = ''sql'' \<and> trimmed_text U c \<noteq> []) (children ds))
             (xpath_children_of ''dataSets'' ''dataSet'' root))"
    unfolding datasets_def named_sql_eq sql_texts_nonempty by (simp add: sql_texts_eq)
  have sd: "list_all (\<lambda>(name, sql). sanitized U name \<and> sql \<noteq> []) datasets"
    and sv: "list_all (\<lambda>(name, sql). sanitized U name \<and> sql \<noteq> []) valuesets"
    unfolding datasets_def valuesets_def by (rule named_sql_shape)+
  have wr: "\<forall>fs0 out_dir fs1 title.
          mkdir_parents fs0 out_dir = Inr fs1 \<and>
          list_all (\<lambda>p. \<not> is_dir fs1 p)
            (sql_paths out_dir [] datasets @ sql_paths out_dir ''lv_'' valuesets) \<longrightarrow>
          (\<exists>fs'. write_sql_otbi U fs0 out_dir datasets valuesets title =
             Inr (sql_paths out_dir [] datasets @ sql_paths out_dir ''lv_'' valuesets, fs'))"
    using write_sql_otbi_parsed[OF _ _ sd sv] by blast
  show ?thesis
    using r eq xpath_children_of_mem[of _ "''dataSets''" "''dataSet''" root]
      xpath_children_of_subseq[of "''dataSets''" "''dataSet''" root] sd wr
    by blast
qed

theorem parse_datamodel_xdm_datasets_witness:
  "lookup [(Path True [''m_datamodel.xdm''], File ''xml'')] (Path True [''m_datamodel.xdm'']) = Some (File ''xml'')
   \<and> (\<exists>datasets valuesets.
        parse_datamodel_xdm (\<lambda>_. UOther)
          (\<lambda>d. Some (Element ''dataModel'' [] None
             [Element ''dataSets'' [] None
               [Element ''dataSet'' [(''name'', ''Q 1'')] None
                  [Element ''sql'' [] (Some ''  select 1  '') [], Element ''sql'' [] None [],
                   Element ''sql'' [] (Some ''select 2'') []],
                Element ''dataSet'' [(''name'', ''E'')] None [Element ''sql'' [] (Some ''   '') []],
                Element ''dataSet'' [] None [Element ''sql'' [] (Some ''select 3'') []]]]))
          [(Path True [''m_datamodel.xdm''], File ''xml'')] (Path True [''m_datamodel.xdm''])
        = Inr (datasets, valuesets)
      \<and> datasets = [(''Q_1'', ''select 1'' @ [CHR 0x0A, CHR 0x0A] @ ''select 2''), (''Dataset'', ''select 3'')]
      \<and> valuesets = []
      \<and> (\<exists>fs'. write_sql_otbi (\<lambda>_. UOther) [(Path True [''out''], Dir)] (Path True [''out''])
                  datasets valuesets None
               = Inr ([Path True [''out'', ''Q_1.sql''], Path True [''out'', ''Dataset.sql'']], fs')))"
proof -
  let ?fs = "[(Path True [''m_datamodel.xdm''], File ''xml'')]" and ?p = "Path True [''m_datamodel.xdm'']"
  let ?root = "Element ''dataModel'' [] None
             [Element ''dataSets'' [] None
               [Element ''dataSet'' [(''name'', ''Q 1'')] None
                  [Element ''sql'' [] (Some ''  select 1  '') [], Element ''sql'' [] None [],
                   Element ''sql'' [] (Some ''select 2'') []],
                Element ''dataSet'' [(''name'', ''E'')] None [Element ''sql'' [] (Some ''   '') []],
                Element ''dataSet'' [] None [Element ''sql'' [] (Some ''select 3'') []]]]"
  let ?ds = "[(''Q_1'', ''select 1'' @ [CHR 0x0A, CHR 0x0A] @ ''select 2''), (''Dataset'', ''select 3'')]"
  have h1: "lookup ?fs ?p = Some (File ''xml'')" by (simp add: lookup_def)
  have h2: "(\<lambda>d. Some ?root) ''xml'' = Some ?root" by simp
  have pe: "parse_datamodel_xdm (\<lambda>_. UOther) (\<lambda>d. Some ?root) ?fs ?p = Inr (?ds, [])"
    by code_simp
  from parse_datamodel_xdm_datasets[of ?fs ?p "''xml''" "\<lambda>d. Some ?root" ?root "\<lambda>_. UOther", OF h1 h2]
  obtain datasets valuesets where
    r: "parse_datamodel_xdm (\<lambda>_. UOther) (\<lambda>d. Some ?root) ?fs ?p = Inr (datasets, valuesets)"
    and wr: "\<forall>fs0 out_dir fs1 title.
          mkdir_parents fs0 out_dir = Inr fs1 \<and>
          list_all (\<lambda>p. \<not> is_dir fs1 p)
            (sql_paths out_dir [] datasets @ sql_paths out_dir ''lv_'' valuesets) \<longrightarrow>
          (\<exists>fs'. write_sql_otbi (\<lambda>_. UOther) fs0 out_dir datasets valuesets title =
             Inr (sql_paths out_dir [] datasets @ sql_paths out_dir ''lv_'' valuesets, fs'))"
    by blast
  have d: "datasets = ?ds" and v: "valuesets = []" using r pe by simp_all
  have m: "mkdir_parents [(Path True [''out''], Dir)] (Path True [''out'']) = Inr [(Path True [''out''], Dir)]"
    by code_simp
  have sp: "sql_paths (Path True [''out'']) [] ?ds @ sql_paths (Path True [''out'']) ''lv_'' [] =
      [Path True [''out'', ''Q_1.sql''], Path True [''out'', ''Dataset.sql'']]"
    by (simp add: sql_paths_def child_def)
  have fr: "list_all (\<lambda>p. \<not> is_dir [(Path True [''out''], Dir)] p)
      (sql_paths (Path True [''out'']) [] ?ds @ sql_paths (Path True [''out'']) ''lv_'' [])"
    unfolding sp by (simp add: is_dir_def lookup_def)
  from wr[rule_format, of "[(Path True [''out''], Dir)]" "Path True [''out'']" "[(Path True [''out''], Dir)]" None]
    m fr d v sp
  obtain fs' where "write_sql_otbi (\<lambda>_. UOther) [(Path True [''out''], Dir)] (Path True [''out''])
                  ?ds [] None
               = Inr ([Path True [''out'', ''Q_1.sql''], Path True [''out'', ''Dataset.sql'']], fs')"
    by auto
  then show ?thesis using h1 r d v by blast
qed

text \<open>
  The claim as stated fails in two places: a dataset under a \<open>dataSets\<close> element
  that is the root of the document gives no pair, and an empty \<open>name\<close> attribute
  gives the name \<open>"Dataset"\<close> (its sanitized value would be \<open>"unnamed"\<close>).
\<close>

theorem parse_datamodel_xdm_root_container:
  "parse_datamodel_xdm (\<lambda>_. UOther)
     (\<lambda>d. Some (Element ''dataSets'' [] None
        [Element ''dataSet'' [(''name'', ''X'')] None [Element ''sql'' [] (Some ''select 1'') []]]))
     [(Path True [''m_datamodel.xdm''], File ''xml'')] (Path True [''m_datamodel.xdm''])
   = Inr ([], [])
   \<and> elements_under ''dataSets'' ''dataSet''
       (Element ''dataSets'' [] None
        [Element ''dataSet'' [(''name'', ''X'')] None [Element ''sql'' [] (Some ''select 1'') []]])
     = [Element ''dataSet'' [(''name'', ''X'')] None [Element ''sql'' [] (Some ''select 1'') []]]
   \<and> parse_datamodel_xdm (\<lambda>_. UOther)
     (\<lambda>d. Some (Element ''dataModel'' [] None [Element ''dataSets'' [] None
        [Element ''dataSet'' [(''name'', '''')] None [Element ''sql'' [] (Some ''select 1'') []]]]))
     [(Path True [''m_datamodel.xdm''], File ''xml'')] (Path True [''m_datamodel.xdm''])
   = Inr ([(''Dataset'', ''select 1'')], [])
   \<and> safe_name (\<lambda>_. UOther) '''' = ''unnamed''"
  by code_simp

subsection \<open>The report-reference reader\<close>

lemma endswith_iff: "endswith s suf \<longleftrightarrow> (\<exists>pre. s = pre @ suf)"
proof
  assume "endswith s suf"
  then have "s = take (length s - length suf) s @ suf"
    by (metis append_take_drop_id endswith_def)
  then show "\<exists>pre. s = pre @ suf" ..
next
  assume "\<exists>pre. s = pre @ suf"
  then show "endswith s suf" by (auto simp: endswith_def)
qed

lemma endswith_longer: "endswith s (a @ b) \<Longrightarrow> endswith s b"
  unfolding endswith_iff by (metis append.assoc)

lemma report_suffix_subsumed:
  "(endswith s ''report.xdo'' \<or> endswith s ''_report.xdo'') = endswith s ''report.xdo''"
  using endswith_longer[of s "''_''" "''report.xdo''"] by auto

lemma hd_insort_key:
  "hd (insort_key f x ys) = (if ys = [] then x else if f x \<le> f (hd ys) then x else hd ys)"
  by (cases ys) auto

lemma insort_key_not_Nil: "insort_key f x ys \<noteq> []"
  by (cases ys) auto

lemma sort_key_Nil_iff: "sort_key f xs = [] \<longleftrightarrow> xs = []"
  by (cases xs) (auto simp: insort_key_not_Nil)

lemma first_minimal_sort:
  "first_minimal f xs = (if xs = [] then None else Some (hd (sort_key f xs)))"
proof (induction xs)
  case Nil
  then show ?case by simp
next
  case (Cons x xs)
  then show ?case by (auto simp: hd_insort_key sort_key_Nil_iff)
qed

lemma first_minimal_props:
  "first_minimal f xs = Some m \<Longrightarrow>
     m \<in> set xs \<and> list_all (\<lambda>n. f m \<le> f n) xs \<and> find (\<lambda>n. f n = f m) xs = Some m"
proof (induction xs arbitrary: m)
  case Nil
  then show ?case by simp
next
  case (Cons x xs)
  show ?case
  proof (cases "first_minimal f xs")
    case None
    then have "xs = []" by (cases xs) (auto split: option.splits if_splits)
    then show ?thesis using Cons.prems by simp
  next
    case (Some k)
    note ih = Cons.IH[OF Some]
    show ?thesis
    proof (cases "f x \<le> f k")
      case True
      then have "m = x" using Cons.prems Some by simp
      moreover have "list_all (\<lambda>n. f x \<le> f n) xs" using ih True by (auto simp: list_all_iff)
      ultimately show ?thesis by simp
    next
      case False
      then have "m = k" using Cons.prems Some by simp
      then show ?thesis using ih False by (auto simp: list_all_iff)
    qed
  qed
qed

lemma hd_map_filter_find:
  "(case List.map_filter g xs of [] \<Rightarrow> None | u # _ \<Rightarrow> Some u) =
   (case find (\<lambda>x. g x \<noteq> None) xs of None \<Rightarrow> None | Some x \<Rightarrow> g x)"
  by (induction xs) (auto split: option.splits)

lemma find_filter: "find P (filter Q xs) = find (\<lambda>x. Q x \<and> P x) xs"
  by (induction xs) auto

lemma first_url: 
  "(case xpath_attr_of name attr root of [] \<Rightarrow> None | u # _ \<Rightarrow> Some u) = first_attr name attr root"
  unfolding xpath_attr_of_def first_attr_def hd_map_filter_find find_filter ..

lemma chosen_xdo_sort:
  "chosen_xdo L names =
     (if xdo_candidates L names = [] then None
      else Some (hd (sort_key depth_then_length (xdo_candidates L names))))"
proof (cases "list_ex (\<lambda>n. endswith (lower L n) ''report.xdo'') names")
  case True
  then have "filter (\<lambda>n. endswith (lower L n) ''report.xdo'') names \<noteq> []"
    by (auto simp: list_ex_iff filter_empty_conv)
  then show ?thesis using True
    by (simp add: chosen_xdo_def xdo_candidates_def report_suffix_subsumed first_minimal_sort)
next
  case False
  then have "filter (\<lambda>n. endswith (lower L n) ''report.xdo'') names = []"
    by (auto simp: list_ex_iff filter_empty_conv)
  then show ?thesis using False
    by (simp add: chosen_xdo_def xdo_candidates_def report_suffix_subsumed first_minimal_sort)
qed

lemma xdo_candidates_eq:
  "xdo_candidates L names =
     (if list_ex (\<lambda>n. endswith (lower L n) ''report.xdo'') names
      then filter (\<lambda>n. endswith (lower L n) ''report.xdo'') names
      else filter (\<lambda>n. endswith (lower L n) ''.xdo'') names)"
  by (auto simp: xdo_candidates_def report_suffix_subsumed list_ex_iff filter_empty_conv)

lemma chosen_xdo_first_minimal:
  "chosen_xdo L names = first_minimal depth_then_length (xdo_candidates L names)"
  by (simp add: chosen_xdo_def xdo_candidates_eq)

lemma zip_read_member: "c \<in> set (namelist zf) \<Longrightarrow> zip_read zf c \<noteq> None"
  by (auto simp: namelist_def zip_read_def map_of_eq_None_iff)

lemma xdo_candidates_subset: "set (xdo_candidates L names) \<subseteq> set names"
  by (auto simp: xdo_candidates_eq)

text \<open>
  What the function computes. \<open>read_report_datamodel_url\<close> never raises: it returns
  nothing when the bundle is not a readable archive, when no member's lower-cased name
  ends with \<open>.xdo\<close>, when the parser gives up, and when no \<open>dataModel\<close> element
  below the root has a \<open>url\<close> attribute. Otherwise it reads the member chosen among
  those whose lower-cased name ends with \<open>report.xdo\<close> if there is one, else among
  those ending with \<open>.xdo\<close>: the first in archive order of those with the fewest
  separators and, among these, the shortest name; and it returns the first \<open>url\<close>
  attribute found, in document order, on the \<open>dataModel\<close> elements below the root of
  that file.
\<close>

lemma read_report_datamodel_url_result:
  "read_report_datamodel_url L unzip parser fs xdo_file =
     (case lookup fs xdo_file of
        Some (File bytes) \<Rightarrow>
          (case unzip bytes of
             None \<Rightarrow> None
           | Some zf \<Rightarrow>
               (case chosen_xdo L (namelist zf) of
                  None \<Rightarrow> None
                | Some c \<Rightarrow>
                    (case zip_read zf c of
                       None \<Rightarrow> None
                     | Some data \<Rightarrow>
                         (case parser data of
                            None \<Rightarrow> None
                          | Some root \<Rightarrow> first_attr ''dataModel'' ''url'' root))))
      | _ \<Rightarrow> None)
   \<and> xdo_candidates L (namelist z) =
       (if list_ex (\<lambda>n. endswith (lower L n) ''report.xdo'') (namelist z)
        then filter (\<lambda>n. endswith (lower L n) ''report.xdo'') (namelist z)
        else filter (\<lambda>n. endswith (lower L n) ''.xdo'') (namelist z))
   \<and> (chosen_xdo L (namelist z) = None \<longleftrightarrow> xdo_candidates L (namelist z) = [])
   \<and> (\<forall>c. chosen_xdo L (namelist z) = Some c \<longrightarrow>
          c \<in> set (xdo_candidates L (namelist z)) \<and>
          list_all (\<lambda>n. depth_then_length c \<le> depth_then_length n) (xdo_candidates L (namelist z)) \<and>
          find (\<lambda>n. depth_then_length n = depth_then_length c) (xdo_candidates L (namelist z)) = Some c \<and>
          zip_read z c \<noteq> None)"
proof -
  have eq: "read_report_datamodel_url L unzip parser fs xdo_file =
     (case lookup fs xdo_file of
        Some (File bytes) \<Rightarrow>
          (case unzip bytes of
             None \<Rightarrow> None
           | Some zf \<Rightarrow>
               (case chosen_xdo L (namelist zf) of
                  None \<Rightarrow> None
                | Some c \<Rightarrow>
                    (case zip_read zf c of
                       None \<Rightarrow> None
                     | Some data \<Rightarrow>
                         (case parser data of
                            None \<Rightarrow> None
                          | Some root \<Rightarrow> first_attr ''dataModel'' ''url'' root))))
      | _ \<Rightarrow> None)"
    by (simp add: read_report_datamodel_url_def chosen_xdo_sort first_url Let_def
        split: option.splits node.splits)
  have none: "chosen_xdo L (namelist z) = None \<longleftrightarrow> xdo_candidates L (namelist z) = []"
    by (simp add: chosen_xdo_sort)
  have some: "\<forall>c. chosen_xdo L (namelist z) = Some c \<longrightarrow>
          c \<in> set (xdo_candidates L (namelist z)) \<and>
          list_all (\<lambda>n. depth_then_length c \<le> depth_then_length n) (xdo_candidates L (namelist z)) \<and>
          find (\<lambda>n. depth_then_length n = depth_then_length c) (xdo_candidates L (namelist z)) = Some c \<and>
          zip_read z c \<noteq> None"
  proof (intro allI impI)
    fix c assume c: "chosen_xdo L (namelist z) = Some c"
    then have fm: "first_minimal depth_then_length (xdo_candidates L (namelist z)) = Some c"
      by (simp add: chosen_xdo_first_minimal)
    note p = first_minimal_props[OF fm]
    have "c \<in> set (namelist z)" using p xdo_candidates_subset by blast
    then have "zip_read z c \<noteq> None" by (rule zip_read_member)
    then show "c \<in> set (xdo_candidates L (namelist z)) \<and>
          list_all (\<lambda>n. depth_then_length c \<le> depth_then_length n) (xdo_candidates L (namelist z)) \<and>
          find (\<lambda>n. depth_then_length n = depth_then_length c) (xdo_candidates L (namelist z)) = Some c \<and>
          zip_read z c \<noteq> None"
      using p by blast
  qed
  show ?thesis using eq xdo_candidates_eq none some by blast
qed

lemma read_report_datamodel_url_result_example:
  "chosen_xdo (\<lambda>c. [c])
      (namelist [(''t.rtf'', ''T''), (''sub/My_Report.XDO'', ''A''), (''z_report.xdo'', ''B''), (''a.xdo'', ''C'')])
     = Some ''z_report.xdo''
   \<and> xdo_candidates (\<lambda>c. [c])
      (namelist [(''t.rtf'', ''T''), (''sub/My_Report.XDO'', ''A''), (''z_report.xdo'', ''B''), (''a.xdo'', ''C'')])
       = [''sub/My_Report.XDO'', ''z_report.xdo'']
   \<and> list_all (\<lambda>n. depth_then_length ''z_report.xdo'' \<le> depth_then_length n)
        (xdo_candidates (\<lambda>c. [c])
          (namelist [(''t.rtf'', ''T''), (''sub/My_Report.XDO'', ''A''), (''z_report.xdo'', ''B''), (''a.xdo'', ''C'')]))
   \<and> zip_read [(''t.rtf'', ''T''), (''sub/My_Report.XDO'', ''A''), (''z_report.xdo'', ''B''), (''a.xdo'', ''C'')]
        ''z_report.xdo'' \<noteq> None
   \<and> read_report_datamodel_url (\<lambda>c. [c])
        (\<lambda>b. Some [(''t.rtf'', ''T''), (''sub/My_Report.XDO'', ''A''), (''z_report.xdo'', ''B''), (''a.xdo'', ''C'')])
        (\<lambda>d. Some (Element ''report'' [] None [Element ''dataModel'' [(''url'', ''/m/'' @ d @ ''.xdm'')] None []]))
        [(Path True [''r.xdoz''], File ''PK'')] (Path True [''r.xdoz'']) = Some ''/m/B.xdm''"
proof -
  let ?z = "[(''t.rtf'', ''T''), (''sub/My_Report.XDO'', ''A''), (''z_report.xdo'', ''B''), (''a.xdo'', ''C'')]"
  have c: "chosen_xdo (\<lambda>c. [c]) (namelist ?z) = Some ''z_report.xdo''" by code_simp
  have x: "xdo_candidates (\<lambda>c. [c]) (namelist ?z) = [''sub/My_Report.XDO'', ''z_report.xdo'']" by code_simp
  have r: "read_report_datamodel_url (\<lambda>c. [c]) (\<lambda>b. Some ?z)
        (\<lambda>d. Some (Element ''report'' [] None [Element ''dataModel'' [(''url'', ''/m/'' @ d @ ''.xdm'')] None []]))
        [(Path True [''r.xdoz''], File ''PK'')] (Path True [''r.xdoz'']) = Some ''/m/B.xdm''"
    by code_simp
  from read_report_datamodel_url_result[of "\<lambda>c. [c]" _ _ _ _ ?z] c
  have "list_all (\<lambda>n. depth_then_length ''z_report.xdo'' \<le> depth_then_length n)
          (xdo_candidates (\<lambda>c. [c]) (namelist ?z)) \<and> zip_read ?z ''z_report.xdo'' \<noteq> None"
    by blast
  then show ?thesis using c x r by blast
qed

text \<open>
  Claim C3 does not hold of the code. The function's docstring names the preferred
  members: \<open>report.xdo\<close>, \<open>*_report.xdo\<close>, or any \<open>*.xdo\<close> as fallback. The test
  written for the first, \<open>endswith("report.xdo")\<close>, holds of every name that ends with
  these letters, and so of \<open>myreport.xdo\<close>, which is neither \<open>report.xdo\<close> nor
  \<open>*_report.xdo\<close>; the test for \<open>_report.xdo\<close> beside it can add nothing. In a
  bundle with the members \<open>a.xdo\<close> and \<open>myreport.xdo\<close> no member has a preferred name,
  and the shortest of the \<open>.xdo\<close> members is \<open>a.xdo\<close>: the function reads
  \<open>myreport.xdo\<close>. In a bundle with \<open>x/y/a_report.xdo\<close> and \<open>myreport.xdo\<close> the only
  member with a preferred name is \<open>x/y/a_report.xdo\<close>: the function reads
  \<open>myreport.xdo\<close> again. (The parser of the example takes the bytes of a definition
  file for the reference it holds, so the result shows which member was read.)
\<close>

theorem read_report_datamodel_url_reads_myreport:
  "read_report_datamodel_url (\<lambda>c. [c]) (\<lambda>b. Some [(''a.xdo'', ''A''), (''myreport.xdo'', ''B'')])
     (\<lambda>d. Some (Element ''report'' [] None [Element ''dataModel'' [(''url'', d)] None []]))
     [(Path True [''r.xdoz''], File ''PK'')] (Path True [''r.xdoz'']) = Some ''B''
   \<and> claimed_xdo (\<lambda>c. [c]) (namelist [(''a.xdo'', ''A''), (''myreport.xdo'', ''B'')]) = Some ''a.xdo''
   \<and> zip_read [(''a.xdo'', ''A''), (''myreport.xdo'', ''B'')] ''a.xdo'' = Some ''A''
   \<and> read_report_datamodel_url (\<lambda>c. [c])
     (\<lambda>b. Some [(''x/y/a_report.xdo'', ''A''), (''myreport.xdo'', ''B'')])
     (\<lambda>d. Some (Element ''report'' [] None [Element ''dataModel'' [(''url'', d)] None []]))
     [(Path True [''r.xdoz''], File ''PK'')] (Path True [''r.xdoz'']) = Some ''B''
   \<and> claimed_xdo (\<lambda>c. [c]) (namelist [(''x/y/a_report.xdo'', ''A''), (''myreport.xdo'', ''B'')])
       = Some ''x/y/a_report.xdo''
   \<and> zip_read [(''x/y/a_report.xdo'', ''A''), (''myreport.xdo'', ''B'')] ''x/y/a_report.xdo'' = Some ''A''"
  by code_simp

text \<open>
  The reference returned is the first \<open>url\<close> attribute on the \<open>dataModel\<close>
  elements, as the XPath of the function selects the attributes: where the first such
  element has none, the attribute of a later one is returned.
\<close>

lemma read_report_datamodel_url_first_url_attribute:
  "read_report_datamodel_url (\<lambda>c. [c]) (\<lambda>b. Some [(''report.xdo'', ''A'')])
     (\<lambda>d. Some (Element ''report'' [] None
        [Element ''dataModel'' [] None [], Element ''dataModel'' [(''url'', ''/m/M.xdm'')] None []]))
     [(Path True [''r.xdoz''], File ''PK'')] (Path True [''r.xdoz'']) = Some ''/m/M.xdm''
   \<and> claimed_url (Element ''report'' [] None
        [Element ''dataModel'' [] None [], Element ''dataModel'' [(''url'', ''/m/M.xdm'')] None []]) = None"
  by code_simp

subsection \<open>The matcher\<close>

lemma find_scope_nearest:
  "k \<le> n \<Longrightarrow> sm (f k, st) = Some r \<Longrightarrow> (\<forall>j. k < j \<and> j \<le> n \<longrightarrow> sm (f j, st) = None) \<Longrightarrow>
   find_scope sm st (map f (rev [0..<Suc n])) = Some r"
proof (induction n)
  case 0
  then show ?case by simp
next
  case (Suc n)
  show ?case
  proof (cases "k = Suc n")
    case True
    then show ?thesis using Suc.prems by simp
  next
    case False
    then have k: "k \<le> n" using Suc.prems by simp
    then have "sm (f (Suc n), st) = None" using Suc.prems by simp
    moreover have "find_scope sm st (map f (rev [0..<Suc n])) = Some r"
      using Suc.IH[OF k Suc.prems(2)] Suc.prems(3) by simp
    ultimately show ?thesis by simp
  qed
qed

lemma find_scope_none:
  "(\<forall>j. j \<le> n \<longrightarrow> sm (f j, st) = None) \<Longrightarrow> find_scope sm st (map f (rev [0..<Suc n])) = None"
  by (induction n) simp_all

lemma orphan_child: "pdiv d (Path_of_str ''_Orphan'') = child d ''_Orphan''"
  by (rule pdiv_valid) (simp add: valid_comp_def)

lemma otbi_root_comps:
  "pdiv out_root (safe_path_from_rel U (Path False ps)) =
     Path (absolute out_root)
       (comps out_root @ map (safe_name U) (filter (\<lambda>part. part \<noteq> ''.'' \<and> part \<noteq> []) ps))"
  by (simp add: safe_path_comps pdiv_def py_parts_def)

text \<open>
  Claim C1. Take a report in the container folder with components \<open>ps\<close>, and the
  reference \<open>dm_url\<close> read from it. When there is a (non-empty) reference, its
  lower-cased stem is looked up in the scoped map at the folder itself and then at
  each ancestor up to the container root: a hit at the folder of the first \<open>k\<close>
  components, with no hit at any longer one, is the result (the nearest scope wins).
  When no scope of the chain has it, the result is what the global map has for the
  stem. When there is no reference, or neither map has a root, there is no match, and
  the report is placed in the folder \<open>_Orphan\<close> of its own position below the
  output root (the sanitized components of its folder), which is created; with a
  match it is placed in the model root found.
\<close>

theorem matcher_nearest_scope_global_orphan:
  "(\<forall>url r k.
       dm_url = Some url \<and> url \<noteq> [] \<and> k \<le> length ps \<and>
       scoped (as_posix (Path False (take k ps)), lower L (path_stem (Path_of_str url))) = Some r \<and>
       (\<forall>j. k < j \<and> j \<le> length ps \<longrightarrow>
            scoped (as_posix (Path False (take j ps)), lower L (path_stem (Path_of_str url))) = None)
       \<longrightarrow> match_model_root L scoped global (Path False ps) dm_url = Some r)
   \<and> (\<forall>url.
       dm_url = Some url \<and> url \<noteq> [] \<and>
       (\<forall>j. j \<le> length ps \<longrightarrow>
            scoped (as_posix (Path False (take j ps)), lower L (path_stem (Path_of_str url))) = None)
       \<longrightarrow> match_model_root L scoped global (Path False ps) dm_url =
             global (lower L (path_stem (Path_of_str url))))
   \<and> (dm_url = None \<or> dm_url = Some [] \<longrightarrow> match_model_root L scoped global (Path False ps) dm_url = None)
   \<and> (\<forall>rel fs1.
       relative_to xdoz_file src = Inr rel \<and> parent rel = Path False ps \<and>
       mkdir_parents fs (pdiv out_root (safe_path_from_rel U (Path False ps))) = Inr fs1 \<and>
       dm_url = read_report_datamodel_url L unzip parser fs1 xdoz_file
       \<longrightarrow> (\<forall>r. match_model_root L scoped global (Path False ps) dm_url = Some r \<longrightarrow>
               place_report U L unzip parser scoped global fs src out_root xdoz_file = Inr (r, fs1))
         \<and> (\<forall>fs2. match_model_root L scoped global (Path False ps) dm_url = None \<and>
               mkdir_parents fs1
                 (Path (absolute out_root)
                    (comps out_root @ map (safe_name U) (filter (\<lambda>part. part \<noteq> ''.'' \<and> part \<noteq> []) ps)
                     @ [''_Orphan''])) = Inr fs2 \<longrightarrow>
               place_report U L unzip parser scoped global fs src out_root xdoz_file =
                 Inr (Path (absolute out_root)
                        (comps out_root @ map (safe_name U) (filter (\<lambda>part. part \<noteq> ''.'' \<and> part \<noteq> []) ps)
                         @ [''_Orphan'']), fs2)
               \<and> is_dir fs2
                   (Path (absolute out_root)
                      (comps out_root @ map (safe_name U) (filter (\<lambda>part. part \<noteq> ''.'' \<and> part \<noteq> []) ps)
                       @ [''_Orphan'']))))"
proof -
  let ?chain = "\<lambda>k. as_posix (Path False (take k ps))"
  have w: "walk_up_rel_paths (Path False ps) = map ?chain (rev [0..<Suc (length ps)])"
    by (rule walk_up_chain)
  have near: "\<forall>url r k.
       dm_url = Some url \<and> url \<noteq> [] \<and> k \<le> length ps \<and>
       scoped (?chain k, lower L (path_stem (Path_of_str url))) = Some r \<and>
       (\<forall>j. k < j \<and> j \<le> length ps \<longrightarrow> scoped (?chain j, lower L (path_stem (Path_of_str url))) = None)
       \<longrightarrow> match_model_root L scoped global (Path False ps) dm_url = Some r"
  proof (intro allI impI)
    fix url r k
    assume a: "dm_url = Some url \<and> url \<noteq> [] \<and> k \<le> length ps \<and>
       scoped (?chain k, lower L (path_stem (Path_of_str url))) = Some r \<and>
       (\<forall>j. k < j \<and> j \<le> length ps \<longrightarrow> scoped (?chain j, lower L (path_stem (Path_of_str url))) = None)"
    then have "find_scope scoped (lower L (path_stem (Path_of_str url)))
                 (map ?chain (rev [0..<Suc (length ps)])) = Some r"
      by (intro find_scope_nearest) auto
    then show "match_model_root L scoped global (Path False ps) dm_url = Some r"
      using a by (simp add: match_model_root_def w Let_def del: upt_Suc)
  qed
  have glob: "\<forall>url.
       dm_url = Some url \<and> url \<noteq> [] \<and>
       (\<forall>j. j \<le> length ps \<longrightarrow> scoped (?chain j, lower L (path_stem (Path_of_str url))) = None)
       \<longrightarrow> match_model_root L scoped global (Path False ps) dm_url =
             global (lower L (path_stem (Path_of_str url)))"
  proof (intro allI impI)
    fix url
    assume a: "dm_url = Some url \<and> url \<noteq> [] \<and>
       (\<forall>j. j \<le> length ps \<longrightarrow> scoped (?chain j, lower L (path_stem (Path_of_str url))) = None)"
    then have "find_scope scoped (lower L (path_stem (Path_of_str url)))
                 (map ?chain (rev [0..<Suc (length ps)])) = None"
      by (intro find_scope_none) auto
    then show "match_model_root L scoped global (Path False ps) dm_url =
             global (lower L (path_stem (Path_of_str url)))"
      using a by (simp add: match_model_root_def w Let_def del: upt_Suc)
  qed
  have noref: "dm_url = None \<or> dm_url = Some [] \<longrightarrow> match_model_root L scoped global (Path False ps) dm_url = None"
    by (auto simp: match_model_root_def)
  let ?otbi = "pdiv out_root (safe_path_from_rel U (Path False ps))"
  let ?orphan = "Path (absolute out_root)
                    (comps out_root @ map (safe_name U) (filter (\<lambda>part. part \<noteq> ''.'' \<and> part \<noteq> []) ps)
                     @ [''_Orphan''])"
  have orphan: "pdiv ?otbi (Path_of_str ''_Orphan'') = ?orphan"
    by (simp add: orphan_child otbi_root_comps child_def)
  have place: "\<forall>rel fs1.
       relative_to xdoz_file src = Inr rel \<and> parent rel = Path False ps \<and>
       mkdir_parents fs ?otbi = Inr fs1 \<and>
       dm_url = read_report_datamodel_url L unzip parser fs1 xdoz_file
       \<longrightarrow> (\<forall>r. match_model_root L scoped global (Path False ps) dm_url = Some r \<longrightarrow>
               place_report U L unzip parser scoped global fs src out_root xdoz_file = Inr (r, fs1))
         \<and> (\<forall>fs2. match_model_root L scoped global (Path False ps) dm_url = None \<and>
               mkdir_parents fs1 ?orphan = Inr fs2 \<longrightarrow>
               place_report U L unzip parser scoped global fs src out_root xdoz_file = Inr (?orphan, fs2)
               \<and> is_dir fs2 ?orphan)"
  proof (intro allI impI conjI)
    fix rel fs1 r
    assume a: "relative_to xdoz_file src = Inr rel \<and> parent rel = Path False ps \<and>
       mkdir_parents fs ?otbi = Inr fs1 \<and>
       dm_url = read_report_datamodel_url L unzip parser fs1 xdoz_file"
      and m: "match_model_root L scoped global (Path False ps) dm_url = Some r"
    show "place_report U L unzip parser scoped global fs src out_root xdoz_file = Inr (r, fs1)"
      using a m by (simp add: place_report_def Let_def)
  next
    fix rel fs1 fs2
    assume a: "relative_to xdoz_file src = Inr rel \<and> parent rel = Path False ps \<and>
       mkdir_parents fs ?otbi = Inr fs1 \<and>
       dm_url = read_report_datamodel_url L unzip parser fs1 xdoz_file"
      and m: "match_model_root L scoped global (Path False ps) dm_url = None \<and>
               mkdir_parents fs1 ?orphan = Inr fs2"
    show "place_report U L unzip parser scoped global fs src out_root xdoz_file = Inr (?orphan, fs2)"
      using a m orphan by (simp add: place_report_def Let_def)
    show "is_dir fs2 ?orphan" using m mkdir_parents_is_dir by blast
  qed
  show ?thesis using near glob noref place by blast
qed

theorem matcher_nearest_scope_global_orphan_witness:
  "match_model_root (\<lambda>c. [c])
      (map_of [((''A'', ''model1''), Path True [''out'', ''A'', ''model1'']),
               ((''.'', ''model1''), Path True [''out'', ''model1''])])
      (map_of [(''model1'', Path True [''out'', ''model1''])])
      (Path False [''A'', ''B'']) (Some ''/Models/Model1.xdm'')
     = Some (Path True [''out'', ''A'', ''model1''])
   \<and> match_model_root (\<lambda>c. [c])
      (map_of [((''A'', ''model1''), Path True [''out'', ''A'', ''model1''])])
      (map_of [(''model1'', Path True [''out'', ''A'', ''model1''])])
      (Path False [''C'']) (Some ''/Models/Model1.xdm'')
     = Some (Path True [''out'', ''A'', ''model1''])
   \<and> (\<exists>fs2.
        place_report (\<lambda>_. UOther) (\<lambda>c. [c]) (\<lambda>b. Some [(''report.xdo'', ''x'')])
          (\<lambda>d. Some (Element ''report'' [] None [Element ''dataModel'' [(''url'', ''/Models/Gone.xdm'')] None []]))
          (map_of [((''A'', ''model1''), Path True [''out'', ''A'', ''model1''])])
          (map_of [(''model1'', Path True [''out'', ''A'', ''model1''])])
          [(Path True [''src'', ''A'', ''B'', ''r.xdoz''], File ''PK''), (Path True [''out''], Dir)]
          (Path True [''src'']) (Path True [''out'']) (Path True [''src'', ''A'', ''B'', ''r.xdoz''])
        = Inr (Path True [''out'', ''A'', ''B'', ''_Orphan''], fs2)
        \<and> is_dir fs2 (Path True [''out'', ''A'', ''B'', ''_Orphan'']))"
proof -
  let ?L = "\<lambda>c::char. [c]"
  let ?sm1 = "map_of [((''A'', ''model1''), Path True [''out'', ''A'', ''model1'']),
               ((''.'', ''model1''), Path True [''out'', ''model1''])]"
  let ?gm1 = "map_of [(''model1'', Path True [''out'', ''model1''])]"
  let ?sm = "map_of [((''A'', ''model1''), Path True [''out'', ''A'', ''model1''])]"
  let ?gm = "map_of [(''model1'', Path True [''out'', ''A'', ''model1''])]"
  let ?url = "''/Models/Model1.xdm''"
  have st: "lower ?L (path_stem (Path_of_str ?url)) = ''model1''" by code_simp
  \<comment> \<open>the nearest scope: found one level up, although the root has a model of that name too\<close>
  have a1: "?sm1 (as_posix (Path False (take 1 [''A'', ''B''])), ''model1'') =
              Some (Path True [''out'', ''A'', ''model1''])" by code_simp
  have a2: "\<forall>j. 1 < j \<and> j \<le> length [''A'', ''B''] \<longrightarrow>
              ?sm1 (as_posix (Path False (take j [''A'', ''B''])), ''model1'') = None"
  proof (intro allI impI)
    fix j :: nat assume "1 < j \<and> j \<le> length [''A'', ''B'']"
    then have j: "j = 2" by simp
    show "?sm1 (as_posix (Path False (take j [''A'', ''B''])), ''model1'') = None"
      unfolding j by code_simp
  qed
  have w1: "match_model_root ?L ?sm1 ?gm1 (Path False [''A'', ''B'']) (Some ?url)
              = Some (Path True [''out'', ''A'', ''model1''])"
  proof -
    have p: "Some ?url = Some ?url \<and> ?url \<noteq> [] \<and> 1 \<le> length [''A'', ''B''] \<and>
       ?sm1 (as_posix (Path False (take 1 [''A'', ''B''])), lower ?L (path_stem (Path_of_str ?url)))
         = Some (Path True [''out'', ''A'', ''model1'']) \<and>
       (\<forall>j. 1 < j \<and> j \<le> length [''A'', ''B''] \<longrightarrow>
            ?sm1 (as_posix (Path False (take j [''A'', ''B''])), lower ?L (path_stem (Path_of_str ?url))) = None)"
      unfolding st using a1 a2 by simp
    from matcher_nearest_scope_global_orphan[of "Some ?url" "[''A'', ''B'']" ?sm1 ?L ?gm1]
    have "\<forall>url r k.
       Some ?url = Some url \<and> url \<noteq> [] \<and> k \<le> length [''A'', ''B''] \<and>
       ?sm1 (as_posix (Path False (take k [''A'', ''B''])), lower ?L (path_stem (Path_of_str url))) = Some r \<and>
       (\<forall>j. k < j \<and> j \<le> length [''A'', ''B''] \<longrightarrow>
            ?sm1 (as_posix (Path False (take j [''A'', ''B''])), lower ?L (path_stem (Path_of_str url))) = None)
       \<longrightarrow> match_model_root ?L ?sm1 ?gm1 (Path False [''A'', ''B'']) (Some ?url) = Some r"
      by (rule conjunct1)
    from this[rule_format, OF p] show ?thesis .
  qed
  \<comment> \<open>the global map: no scope of the chain has the model\<close>
  have b1: "\<forall>j. j \<le> length [''C''] \<longrightarrow> ?sm (as_posix (Path False (take j [''C''])), ''model1'') = None"
  proof (intro allI impI)
    fix j :: nat assume "j \<le> length [''C'']"
    then have "j = 0 \<or> j = 1" by auto
    then show "?sm (as_posix (Path False (take j [''C''])), ''model1'') = None"
    proof
      assume j: "j = 0" show ?thesis unfolding j by code_simp
    next
      assume j: "j = 1" show ?thesis unfolding j by code_simp
    qed
  qed
  have g: "?gm ''model1'' = Some (Path True [''out'', ''A'', ''model1''])" by simp
  have w2: "match_model_root ?L ?sm ?gm (Path False [''C'']) (Some ?url)
              = Some (Path True [''out'', ''A'', ''model1''])"
  proof -
    have p: "Some ?url = Some ?url \<and> ?url \<noteq> [] \<and>
       (\<forall>j. j \<le> length [''C''] \<longrightarrow>
            ?sm (as_posix (Path False (take j [''C''])), lower ?L (path_stem (Path_of_str ?url))) = None)"
      unfolding st using b1 by simp
    from matcher_nearest_scope_global_orphan[of "Some ?url" "[''C'']" ?sm ?L ?gm]
    have "\<forall>url.
       Some ?url = Some url \<and> url \<noteq> [] \<and>
       (\<forall>j. j \<le> length [''C''] \<longrightarrow>
            ?sm (as_posix (Path False (take j [''C''])), lower ?L (path_stem (Path_of_str url))) = None)
       \<longrightarrow> match_model_root ?L ?sm ?gm (Path False [''C'']) (Some ?url) =
             ?gm (lower ?L (path_stem (Path_of_str url)))"
      by (rule conjunct1[OF conjunct2])
    from this[rule_format, OF p] show ?thesis unfolding st using g by simp
  qed
  \<comment> \<open>the orphan: the referenced model is nowhere\<close>
  let ?fs = "[(Path True [''src'', ''A'', ''B'', ''r.xdoz''], File ''PK''), (Path True [''out''], Dir)]"
  let ?unzip = "\<lambda>b::string. Some [(''report.xdo'', ''x'')]"
  let ?parser = "\<lambda>d::string. Some (Element ''report'' [] None
                    [Element ''dataModel'' [(''url'', ''/Models/Gone.xdm'')] None []])"
  let ?f = "Path True [''src'', ''A'', ''B'', ''r.xdoz'']"
  let ?fs1 = "[(Path True [''src'', ''A'', ''B'', ''r.xdoz''], File ''PK''), (Path True [''out''], Dir),
               (Path True [''out'', ''A''], Dir), (Path True [''out'', ''A'', ''B''], Dir)]"
  let ?fs2 = "?fs1 @ [(Path True [''out'', ''A'', ''B'', ''_Orphan''], Dir)]"
  have c1: "relative_to ?f (Path True [''src'']) = Inr (Path False [''A'', ''B'', ''r.xdoz''])" by code_simp
  have c2: "parent (Path False [''A'', ''B'', ''r.xdoz'']) = Path False [''A'', ''B'']" by (simp add: parent_def)
  have c3: "mkdir_parents ?fs (pdiv (Path True [''out'']) (safe_path_from_rel (\<lambda>_. UOther) (Path False [''A'', ''B''])))
              = Inr ?fs1" by code_simp
  have c4: "match_model_root ?L ?sm ?gm (Path False [''A'', ''B''])
              (read_report_datamodel_url ?L ?unzip ?parser ?fs1 ?f) = None" by code_simp
  have c5: "mkdir_parents ?fs1
              (Path (absolute (Path True [''out'']))
                 (comps (Path True [''out'']) @
                  map (safe_name (\<lambda>_. UOther)) (filter (\<lambda>part. part \<noteq> ''.'' \<and> part \<noteq> []) [''A'', ''B''])
                  @ [''_Orphan''])) = Inr ?fs2" by code_simp
  have c6: "Path (absolute (Path True [''out'']))
                 (comps (Path True [''out'']) @
                  map (safe_name (\<lambda>_. UOther)) (filter (\<lambda>part. part \<noteq> ''.'' \<and> part \<noteq> []) [''A'', ''B''])
                  @ [''_Orphan'']) = Path True [''out'', ''A'', ''B'', ''_Orphan'']" by code_simp
  from matcher_nearest_scope_global_orphan[of
      "read_report_datamodel_url ?L ?unzip ?parser ?fs1 ?f" "[''A'', ''B'']" ?sm ?L ?gm
      ?f "Path True [''src'']" ?fs "Path True [''out'']" "\<lambda>_. UOther" ?unzip ?parser]
  have "\<forall>rel fs1.
       relative_to ?f (Path True [''src'']) = Inr rel \<and> parent rel = Path False [''A'', ''B''] \<and>
       mkdir_parents ?fs (pdiv (Path True [''out'']) (safe_path_from_rel (\<lambda>_. UOther) (Path False [''A'', ''B'']))) = Inr fs1 \<and>
       read_report_datamodel_url ?L ?unzip ?parser ?fs1 ?f = read_report_datamodel_url ?L ?unzip ?parser fs1 ?f
       \<longrightarrow> (\<forall>fs2. match_model_root ?L ?sm ?gm (Path False [''A'', ''B''])
                      (read_report_datamodel_url ?L ?unzip ?parser ?fs1 ?f) = None \<and>
               mkdir_parents fs1
                 (Path (absolute (Path True [''out'']))
                    (comps (Path True [''out'']) @
                     map (safe_name (\<lambda>_. UOther)) (filter (\<lambda>part. part \<noteq> ''.'' \<and> part \<noteq> []) [''A'', ''B''])
                     @ [''_Orphan''])) = Inr fs2 \<longrightarrow>
               place_report (\<lambda>_. UOther) ?L ?unzip ?parser ?sm ?gm ?fs (Path True [''src'']) (Path True [''out'']) ?f =
                 Inr (Path (absolute (Path True [''out'']))
                    (comps (Path True [''out'']) @
                     map (safe_name (\<lambda>_. UOther)) (filter (\<lambda>part. part \<noteq> ''.'' \<and> part \<noteq> []) [''A'', ''B''])
                     @ [''_Orphan'']), fs2)
               \<and> is_dir fs2
                   (Path (absolute (Path True [''out'']))
                    (comps (Path True [''out'']) @
                     map (safe_name (\<lambda>_. UOther)) (filter (\<lambda>part. part \<noteq> ''.'' \<and> part \<noteq> []) [''A'', ''B''])
                     @ [''_Orphan''])))"
    by blast
  then have "place_report (\<lambda>_. UOther) ?L ?unzip ?parser ?sm ?gm ?fs (Path True [''src'']) (Path True [''out'']) ?f =
                 Inr (Path True [''out'', ''A'', ''B'', ''_Orphan''], ?fs2)
             \<and> is_dir ?fs2 (Path True [''out'', ''A'', ''B'', ''_Orphan''])"
    using c1 c2 c3 c4 c5 unfolding c6 by blast
  then show ?thesis using w1 w2 by blast
qed

subsection \<open>The template extractor\<close>

text \<open>
  The path a copy writes to is one that did not exist before the copy: the loop over
  the candidates ends only there. Every path created earlier exists, so the test
  \<open>out not in created\<close> after a copy of the second pass cannot fail.
\<close>

lemma first_free_is_free:
  assumes "first_free fs cand target i = Some t"
  shows "\<not> path_exists fs t"
proof (rule first_free.raw_induct[where P = "\<lambda>fs cand target i t. \<not> path_exists fs t", OF _ assms])
  fix f fs cand target i t
  assume ih: "\<And>fs cand target i t. f fs cand target i = Some t \<Longrightarrow> \<not> path_exists fs t"
    and st: "(if path_exists fs target then f fs cand (cand i) (Suc i) else Some target) = Some t"
  show "\<not> path_exists fs t"
  proof (cases "path_exists fs target")
    case True
    then show ?thesis using st ih by simp
  next
    case False
    then show ?thesis using st by simp
  qed
qed

lemma copy_member_fresh:
  "copy_member fs zf tpl_dir n = Some (Inr (out, fs')) \<Longrightarrow> \<not> path_exists fs out \<and> path_exists fs' out"
proof -
  assume c: "copy_member fs zf tpl_dir n = Some (Inr (out, fs'))"
  then obtain cand t0 data where ff: "first_free fs cand t0 1 = Some out"
    and w: "write_file fs out data = Inr fs'"
    by (auto simp: copy_member_def Let_def split: option.splits sum.splits)
  have "\<not> path_exists fs out" using ff by (rule first_free_is_free)
  moreover have "path_exists fs' out" using w
    by (auto simp: write_file_def path_exists_def lookup_update split: option.splits node.splits)
  ultimately show ?thesis by simp
qed

text \<open>
  Claim C2 does not hold of the code. A bundle with the members \<open>report.xdo\<close> and
  \<open>t.rtf\<close>, whose definition names the template \<open>t.rtf\<close>, has \<open>t.rtf\<close> found
  by both passes: the first pass writes \<open>report_templates/t.rtf\<close>, and the second,
  finding that path taken, writes the same bytes to \<open>report_templates/t_1.rtf\<close> and
  lists it too. The template is copied twice.
\<close>

theorem extract_templates_copies_twice:
  "extract_templates_from_xdoz (\<lambda>c. [c])
     (\<lambda>b. Some [(''report.xdo'', ''<report/>''), (''t.rtf'', ''RTF'')])
     (\<lambda>d. Some (Element ''report'' [] None
        [Element ''templates'' [] None [Element ''template'' [(''url'', ''t.rtf'')] None []]]))
     [(Path True [''out''], Dir), (Path True [''r.xdoz''], File ''PK'')]
     (Path True [''r.xdoz'']) (Path True [''out''])
   = Some (Inr ([Path True [''out'', ''report_templates'', ''t.rtf''],
                 Path True [''out'', ''report_templates'', ''t_1.rtf'']],
                [(Path True [''out''], Dir), (Path True [''r.xdoz''], File ''PK''),
                 (Path True [''out'', ''report_templates''], Dir),
                 (Path True [''out'', ''report_templates'', ''t.rtf''], File ''RTF''),
                 (Path True [''out'', ''report_templates'', ''t_1.rtf''], File ''RTF'')]))"
  by code_simp

subsection \<open>The packager and the extractor: the round trip\<close>

lemma tree_entry_lookup: "tree_shaped fs \<Longrightarrow> (p, n) \<in> set fs \<Longrightarrow> lookup fs p = Some n \<and> comps p \<noteq> []"
  by (auto simp: tree_shaped_def lookup_def list_all_iff)

lemma lookup_entry: "lookup fs p = Some n \<Longrightarrow> comps p \<noteq> [] \<Longrightarrow> (p, n) \<in> set fs"
  by (auto simp: lookup_def dest: map_of_SomeD)

lemma tree_parent_dir: "tree_shaped fs \<Longrightarrow> lookup fs p \<noteq> None \<Longrightarrow> is_dir fs (parent p)"
proof (cases "comps p = []")
  case True
  then show ?thesis by (simp add: is_dir_def lookup_def parent_def)
next
  case False
  assume t: "tree_shaped fs" and "lookup fs p \<noteq> None"
  then obtain n where "lookup fs p = Some n" by auto
  then have "(p, n) \<in> set fs" using False by (rule lookup_entry)
  then show ?thesis using t by (auto simp: tree_shaped_def list_all_iff)
qed

lemma tree_ancestors_dirs:
  "tree_shaped fs \<Longrightarrow> lookup fs p \<noteq> None \<Longrightarrow> absolute q = absolute p \<Longrightarrow>
   strict_prefix (comps q) (comps p) \<Longrightarrow> is_dir fs q"
proof (induction "length (comps p)" arbitrary: p)
  case 0
  then show ?case by simp
next
  case (Suc n)
  have pd: "is_dir fs (parent p)" using Suc.prems(1,2) by (rule tree_parent_dir)
  have ne: "comps p \<noteq> []" using Suc.hyps(2) by auto
  then have bl: "comps p = butlast (comps p) @ [last (comps p)]" by simp
  have "prefix (comps q) (butlast (comps p))"
    using Suc.prems(4) ne by (metis bl prefix_snoc strict_prefix_def)
  then consider "comps q = butlast (comps p)" | "strict_prefix (comps q) (butlast (comps p))"
    by (auto simp: strict_prefix_def)
  then show ?case
  proof cases
    case 1
    then have "q = parent p" using Suc.prems(3) by (cases q) (simp add: parent_def)
    then show ?thesis using pd by simp
  next
    case 2
    have "n = length (comps (parent p))" using Suc.hyps(2) by (simp add: parent_def)
    moreover have "lookup fs (parent p) \<noteq> None" using pd by (simp add: is_dir_def)
    moreover have "absolute q = absolute (parent p)" using Suc.prems(3) by (simp add: parent_def)
    moreover have "strict_prefix (comps q) (comps (parent p))" using 2 by (simp add: parent_def)
    ultimately show ?thesis using Suc.hyps(1) Suc.prems(1) by blast
  qed
qed

lemma listdir_mem:
  "e \<in> set (listdir fs d) \<longleftrightarrow> e \<in> set fs \<and> comps (fst e) \<noteq> [] \<and> parent (fst e) = d"
  by (auto simp: listdir_def)

lemma child_below: "comps p \<noteq> [] \<Longrightarrow> parent p = d \<Longrightarrow> below d p"
proof -
  assume ne: "comps p \<noteq> []" and p: "parent p = d"
  have "comps p = butlast (comps p) @ [last (comps p)]" using ne by simp
  then have "strict_prefix (butlast (comps p)) (comps p)"
    by (metis append_Nil2 list.distinct(1) prefixI same_append_eq strict_prefix_def)
  then show ?thesis using p by (auto simp: below_def parent_def)
qed

lemma below_trans: "below a b \<Longrightarrow> below b c \<Longrightarrow> below a c"
  by (auto simp: below_def)

lemma set_map_filter: "set (List.map_filter f xs) = {y. \<exists>x \<in> set xs. f x = Some y}"
  by (induction xs) (auto split: option.splits)

lemma walk_files_set:
  "tree_shaped fs \<Longrightarrow> is_dir fs d \<Longrightarrow>
   set (walk_files fs d) = {(p, data). (p, File data) \<in> set fs \<and> below d p}"
proof (induction fs d rule: walk_files.induct)
  case (1 fs d)
  have ih: "\<And>e. e \<in> set (listdir fs d) \<Longrightarrow> snd e = Dir \<Longrightarrow>
     set (walk_files fs (fst e)) = {(p, data). (p, File data) \<in> set fs \<and> below (fst e) p}"
  proof -
    fix e assume e: "e \<in> set (listdir fs d)" and s: "snd e = Dir"
    have "(fst e, Dir) \<in> set fs" using e s by (metis listdir_mem prod.collapse)
    then have "is_dir fs (fst e)" using "1.prems"(1) tree_entry_lookup by (simp add: is_dir_def)
    then show "set (walk_files fs (fst e)) = {(p, data). (p, File data) \<in> set fs \<and> below (fst e) p}"
      using "1.IH"[OF "1.prems"(2) e s "1.prems"(1)] by simp
  qed
  have w: "set (walk_files fs d) =
      {y. \<exists>e \<in> set (listdir fs d). (case snd e of File data \<Rightarrow> Some (fst e, data) | Dir \<Rightarrow> None) = Some y} \<union>
      (\<Union>e \<in> set (listdir fs d). set (case snd e of Dir \<Rightarrow> walk_files fs (fst e) | File data \<Rightarrow> []))"
    using "1.prems"(2) by (subst walk_files.simps) (simp add: set_map_filter)
  show ?case
  proof (rule set_eqI, rule iffI)
    fix x assume x: "x \<in> set (walk_files fs d)"
    obtain p data where pd: "x = (p, data)" by (cases x)
    from x[unfolded w] show "x \<in> {(p, data). (p, File data) \<in> set fs \<and> below d p}"
    proof
      assume "x \<in> {y. \<exists>e \<in> set (listdir fs d). (case snd e of File data \<Rightarrow> Some (fst e, data) | Dir \<Rightarrow> None) = Some y}"
      then obtain e where e: "e \<in> set (listdir fs d)"
        and c: "(case snd e of File data \<Rightarrow> Some (fst e, data) | Dir \<Rightarrow> None) = Some x" by auto
      from c pd have "e = (p, File data)" by (cases e; cases "snd e") auto
      then show ?thesis using e pd child_below by (auto simp: listdir_mem)
    next
      assume "x \<in> (\<Union>e \<in> set (listdir fs d). set (case snd e of Dir \<Rightarrow> walk_files fs (fst e) | File data \<Rightarrow> []))"
      then obtain e where e: "e \<in> set (listdir fs d)"
        and c: "x \<in> set (case snd e of Dir \<Rightarrow> walk_files fs (fst e) | File data \<Rightarrow> [])" by auto
      then have s: "snd e = Dir" by (cases "snd e") auto
      then have "x \<in> set (walk_files fs (fst e))" using c by simp
      then have "(p, File data) \<in> set fs \<and> below (fst e) p" using ih[OF e s] pd by auto
      moreover have "below d (fst e)" using e child_below by (auto simp: listdir_mem)
      ultimately show ?thesis using pd below_trans by auto
    qed
  next
    fix x assume "x \<in> {(p, data). (p, File data) \<in> set fs \<and> below d p}"
    then obtain p data where pd: "x = (p, data)" and f: "(p, File data) \<in> set fs" and b: "below d p"
      by auto
    have lp: "lookup fs p = Some (File data)" using "1.prems"(1) f tree_entry_lookup by blast
    obtain rest where r: "comps p = comps d @ rest" "rest \<noteq> []"
      using b by (auto simp: below_def strict_prefix_def prefix_def)
    show "x \<in> set (walk_files fs d)"
    proof (cases "length rest = 1")
      case True
      then have "butlast (comps p) = comps d" using r by (cases rest) (auto simp: butlast_append)
      then have "parent p = d" using b by (cases d) (auto simp: parent_def below_def)
      then have "(p, File data) \<in> set (listdir fs d)" using f r by (simp add: listdir_mem)
      then show ?thesis unfolding w pd by force
    next
      case False
      define e where "e = Path (absolute p) (comps d @ [hd rest])"
      have rest2: "rest = hd rest # tl rest" "tl rest \<noteq> []"
        using r(2) False by (cases rest; cases "tl rest"; auto)+
      have sp: "strict_prefix (comps e) (comps p)"
        using r rest2 by (metis e_def append.assoc append_Cons append_Nil path.sel(2)
            prefixI same_append_eq self_append_conv strict_prefix_def)
      have "is_dir fs e"
        using tree_ancestors_dirs[OF "1.prems"(1) _ _ sp] lp by (simp add: e_def)
      then have "(e, Dir) \<in> set fs" by (auto simp: is_dir_def e_def intro: lookup_entry)
      moreover have "parent e = d" using b by (cases d) (auto simp: e_def parent_def below_def)
      ultimately have el: "(e, Dir) \<in> set (listdir fs d)" by (simp add: listdir_mem e_def)
      have "below e p" using sp by (simp add: below_def e_def)
      then have "x \<in> set (walk_files fs e)" using ih[OF el] f pd by simp
      then show ?thesis unfolding w using el by force
    qed
  qed
qed

lemma zip_write_all_below:
  "\<forall>e \<in> set ws. below folder (fst e) \<Longrightarrow>
   zip_write_all folder ws zf =
     Inr (zf @ map (\<lambda>e. (as_posix (Path False (drop (length (comps folder)) (comps (fst e)))), snd e)) ws)"
proof (induction ws arbitrary: zf)
  case Nil
  then show ?case by simp
next
  case (Cons w ws)
  obtain full data where w: "w = (full, data)" by (cases w)
  have "below folder full" using Cons.prems w by simp
  then have "relative_to full folder = Inr (Path False (drop (length (comps folder)) (comps full)))"
    by (auto simp: relative_to_def below_def strict_prefix_def prefix_def)
  then show ?case using Cons w by simp
qed

lemma join_last:
  "xs \<noteq> [] \<Longrightarrow> last xs \<noteq> [] \<Longrightarrow> join sep xs \<noteq> [] \<and> last (join sep xs) = last (last xs)"
  by (induction sep xs rule: join.induct) auto

lemma valid_names_not_dir_member:
  assumes "rel \<noteq> []" "list_all valid_name rel"
  shows "\<not> endswith (as_posix (Path False rel)) ''/''"
proof
  assume e: "endswith (as_posix (Path False rel)) ''/''"
  have l: "last rel \<in> set rel" using assms(1) by simp
  then have v: "valid_name (last rel)" using assms(2) by (simp add: list_all_iff)
  then have ne: "last rel \<noteq> []" by (simp add: valid_name_def)
  have j: "join ''/'' rel \<noteq> [] \<and> last (join ''/'' rel) = last (last rel)"
    using assms(1) ne by (rule join_last)
  from e obtain pre where "join ''/'' rel = pre @ ''/''"
    using assms(1) by (auto simp: endswith_iff as_posix_def)
  then have "last (last rel) = CHR ''/''" using j by simp
  moreover have "last (last rel) \<in> set (last rel)" using ne by simp
  ultimately show False using v by (simp add: valid_name_def)
qed

lemma member_target_valid:
  assumes "rel \<noteq> []" "list_all valid_name rel"
  shows "member_target dest (as_posix (Path False rel)) = Path (absolute dest) (comps dest @ rel)"
proof -
  have "list_all (\<lambda>w. CHR ''/'' \<notin> set w) rel"
    using assms(2) by (simp add: list_all_iff valid_name_def)
  then have "split_on (CHR ''/'') (join ''/'' rel) = rel"
    using assms(1) split_on_join[of rel "CHR ''/''"] by simp
  moreover have "filter (\<lambda>x. x \<notin> set ['''', ''.'', ''..'']) rel = rel"
    using assms(2) by (auto simp: list_all_iff valid_name_def intro!: filter_True)
  ultimately show ?thesis using assms(1) by (simp add: member_target_def as_posix_def)
qed

lemma on_way_parent: "on_way q (parent p) \<Longrightarrow> on_way q p"
  by (auto simp: on_way_def parent_def intro: prefix_order.trans[OF _ prefixeq_butlast])

lemma on_way_refl: "on_way p p"
  by (simp add: on_way_def)

lemma mkdir_parents_succeeds:
  "\<forall>q x. on_way q p \<longrightarrow> lookup fs q \<noteq> Some (File x) \<Longrightarrow> \<exists>fs'. mkdir_parents fs p = Inr fs'"
proof (induction fs p rule: mkdir_parents.induct)
  case (1 fs p)
  have a: "\<forall>x. lookup fs p \<noteq> Some (File x)" using "1.prems" on_way_refl by blast
  have b: "\<forall>x. lookup fs (parent p) \<noteq> Some (File x)"
    using "1.prems" on_way_parent on_way_refl by blast
  show ?case
  proof (cases "lookup fs p")
    case None
    show ?thesis
    proof (cases "lookup fs (parent p)")
      case n2: None
      have "\<forall>q x. on_way q (parent p) \<longrightarrow> lookup fs q \<noteq> Some (File x)"
        using "1.prems" on_way_parent by blast
      then obtain fs1 where "mkdir_parents fs (parent p) = Inr fs1"
        using "1.IH"[OF None n2] by blast
      then show ?thesis using None n2 by (subst mkdir_parents.simps) simp
    next
      case (Some n)
      then show ?thesis using None b by (subst mkdir_parents.simps) (cases n; simp)
    qed
  next
    case (Some n)
    then show ?thesis using a by (subst mkdir_parents.simps) (cases n; simp)
  qed
qed

lemma lookup_root: "comps q = [] \<Longrightarrow> lookup fs q = Some Dir"
  by (simp add: lookup_def)

lemma mkdir_parents_effect:
  "mkdir_parents fs p = Inr fs' \<Longrightarrow>
   lookup fs' q = lookup fs q \<or> (lookup fs q = None \<and> lookup fs' q = Some Dir \<and> on_way q p)"
proof (induction fs p arbitrary: fs' rule: mkdir_parents.induct)
  case (1 fs p)
  show ?case
  proof (cases "lookup fs p")
    case None
    show ?thesis
    proof (cases "lookup fs (parent p)")
      case n2: None
      from "1.prems" None n2 obtain fs1 where r: "mkdir_parents fs (parent p) = Inr fs1"
        and f: "fs' = AList.update p Dir fs1"
        by (subst (asm) mkdir_parents.simps) (auto split: sum.splits)
      have ih: "lookup fs1 q = lookup fs q \<or>
          (lookup fs q = None \<and> lookup fs1 q = Some Dir \<and> on_way q (parent p))"
        using "1.IH"[OF None n2 r] .
      show ?thesis
      proof (cases "q = p")
        case True
        then show ?thesis using None f by (simp add: lookup_update on_way_refl)
      next
        case False
        then have "lookup fs' q = lookup fs1 q" using f by (auto simp: lookup_update lookup_root)
        then show ?thesis using ih on_way_parent by auto
      qed
    next
      case (Some n)
      then have f: "fs' = AList.update p Dir fs" using "1.prems" None
        by (subst (asm) mkdir_parents.simps) (cases n; simp)
      show ?thesis
      proof (cases "q = p")
        case True
        then show ?thesis using None f by (simp add: lookup_update on_way_refl)
      next
        case False
        then show ?thesis using f by (auto simp: lookup_update lookup_root)
      qed
    qed
  next
    case (Some n)
    then have "fs' = fs" using "1.prems" by (subst (asm) mkdir_parents.simps) (cases n; simp)
    then show ?thesis by simp
  qed
qed

lemma on_way_cases: "on_way q p \<Longrightarrow> q = p \<or> on_way q (parent p)"
proof -
  assume o: "on_way q p"
  show ?thesis
  proof (cases "comps q = comps p")
    case True
    then show ?thesis using o by (cases q; cases p) (simp add: on_way_def)
  next
    case False
    then have s: "strict_prefix (comps q) (comps p)" using o by (simp add: on_way_def strict_prefix_def)
    then have "comps p \<noteq> []" by auto
    then have "comps p = butlast (comps p) @ [last (comps p)]" by simp
    then have "prefix (comps q) (butlast (comps p))"
      using s by (metis prefix_snoc strict_prefix_def)
    then show ?thesis using o by (simp add: on_way_def parent_def)
  qed
qed

lemma tree_way_dirs: "tree_shaped fs \<Longrightarrow> is_dir fs d \<Longrightarrow> on_way q d \<Longrightarrow> is_dir fs q"
proof (cases "comps q = comps d")
  case True
  assume "is_dir fs d" "on_way q d"
  then show ?thesis using True by (cases q; cases d) (simp add: on_way_def)
next
  case False
  assume t: "tree_shaped fs" and d: "is_dir fs d" and o: "on_way q d"
  have "strict_prefix (comps q) (comps d)" using o False by (simp add: on_way_def strict_prefix_def)
  moreover have "lookup fs d \<noteq> None" using d by (simp add: is_dir_def)
  moreover have "absolute q = absolute d" using o by (simp add: on_way_def)
  ultimately show ?thesis using t tree_ancestors_dirs by blast
qed

lemma mkdir_parents_way_dirs:
  "tree_shaped fs \<Longrightarrow> mkdir_parents fs p = Inr fs' \<Longrightarrow> on_way q p \<Longrightarrow> is_dir fs' q"
proof (induction fs p arbitrary: fs' q rule: mkdir_parents.induct)
  case (1 fs p)
  have pd: "is_dir fs' p" using "1.prems"(2) by (rule mkdir_parents_is_dir)
  show ?case
  proof (cases "lookup fs p")
    case None
    show ?thesis
    proof (cases "lookup fs (parent p)")
      case n2: None
      from "1.prems"(2) None n2 obtain fs1 where r: "mkdir_parents fs (parent p) = Inr fs1"
        and f: "fs' = AList.update p Dir fs1"
        by (subst (asm) mkdir_parents.simps) (auto split: sum.splits)
      from on_way_cases[OF "1.prems"(3)] show ?thesis
      proof
        assume "q = p"
        then show ?thesis using pd by simp
      next
        assume "on_way q (parent p)"
        then have "is_dir fs1 q" using "1.IH"[OF None n2 "1.prems"(1) r] by simp
        then show ?thesis using f by (simp add: is_dir_def lookup_update)
      qed
    next
      case (Some n)
      then have f: "fs' = AList.update p Dir fs" and n: "n = Dir" using "1.prems"(2) None
        by (subst (asm) mkdir_parents.simps; cases n; simp)+
      from on_way_cases[OF "1.prems"(3)] show ?thesis
      proof
        assume "q = p"
        then show ?thesis using pd by simp
      next
        assume "on_way q (parent p)"
        moreover have "is_dir fs (parent p)" using Some n by (simp add: is_dir_def)
        ultimately have "is_dir fs q" using "1.prems"(1) tree_way_dirs by blast
        then show ?thesis using f by (simp add: is_dir_def lookup_update)
      qed
    qed
  next
    case (Some n)
    then have "fs' = fs" using "1.prems"(2) by (subst (asm) mkdir_parents.simps) (cases n; simp)
    then show ?thesis using pd "1.prems"(1,3) tree_way_dirs by blast
  qed
qed

lemma strict_prefix_butlast: "ys \<noteq> [] \<Longrightarrow> strict_prefix xs ys \<longleftrightarrow> prefix xs (butlast ys)"
proof -
  assume "ys \<noteq> []"
  then obtain b l where "ys = b @ [l]" by (metis append_butlast_last_id)
  then show ?thesis by (auto simp: strict_prefix_def dest: prefix_length_le)
qed

lemma on_way_parent_below: "comps t \<noteq> [] \<Longrightarrow> on_way q (parent t) \<longleftrightarrow> below q t"
  by (auto simp: on_way_def below_def parent_def strict_prefix_butlast)

lemma not_below_self: "\<not> below t t"
  by (simp add: below_def)

lemma extract_member_file:
  assumes nd: "\<not> endswith (fst m) ''/''"
    and ne: "comps (member_target dest (fst m)) \<noteq> []"
    and nf: "\<forall>q x. below q (member_target dest (fst m)) \<longrightarrow> lookup fs q \<noteq> Some (File x)"
    and ndr: "lookup fs (member_target dest (fst m)) \<noteq> Some Dir"
  shows "\<exists>fs1. extract_member fs dest m =
             Inr (AList.update (member_target dest (fst m)) (File (snd m)) fs1) \<and>
           (\<forall>q. lookup fs1 q = lookup fs q \<or>
                (lookup fs q = None \<and> lookup fs1 q = Some Dir \<and>
                 below q (member_target dest (fst m))))"
proof -
  define t where "t = member_target dest (fst m)"
  have up: "below (parent t) t" using ne child_below by (simp add: t_def)
  have w: "\<And>fs1. lookup fs1 t \<noteq> Some Dir \<Longrightarrow> is_dir fs1 (parent t) \<Longrightarrow>
      write_file fs1 t (snd m) = Inr (AList.update t (File (snd m)) fs1)"
  proof -
    fix fs1 :: fs assume a: "lookup fs1 t \<noteq> Some Dir" and b: "is_dir fs1 (parent t)"
    show "write_file fs1 t (snd m) = Inr (AList.update t (File (snd m)) fs1)"
    proof (cases "lookup fs1 t")
      case None
      then show ?thesis using b by (simp add: write_file_def is_dir_def)
    next
      case (Some n)
      then show ?thesis using a b by (cases n) (simp_all add: write_file_def is_dir_def)
    qed
  qed
  show ?thesis
  proof (cases "path_exists fs (parent t)")
    case True
    then obtain n where n: "lookup fs (parent t) = Some n" by (auto simp: path_exists_def)
    then have "n = Dir" using nf up by (cases n) (auto simp: t_def)
    then have "is_dir fs (parent t)" using n by (simp add: is_dir_def)
    then have "write_file fs t (snd m) = Inr (AList.update t (File (snd m)) fs)"
      using w ndr by (simp add: t_def)
    then have "extract_member fs dest m = Inr (AList.update t (File (snd m)) fs)"
      using True nd by (simp add: extract_member_def Let_def t_def)
    then show ?thesis unfolding t_def by blast
  next
    case False
    have "\<forall>q x. on_way q (parent t) \<longrightarrow> lookup fs q \<noteq> Some (File x)"
      using nf ne by (simp add: on_way_parent_below t_def)
    then obtain fs1 where mk: "mkdir_parents fs (parent t) = Inr fs1"
      using mkdir_parents_succeeds by blast
    have eff: "\<And>q. lookup fs1 q = lookup fs q \<or>
        (lookup fs q = None \<and> lookup fs1 q = Some Dir \<and> below q t)"
      using mkdir_parents_effect[OF mk] ne by (simp add: on_way_parent_below t_def)
    have "lookup fs1 t \<noteq> Some Dir" using eff[of t] ndr not_below_self by (auto simp: t_def)
    moreover have "is_dir fs1 (parent t)" using mk by (rule mkdir_parents_is_dir)
    ultimately have "write_file fs1 t (snd m) = Inr (AList.update t (File (snd m)) fs1)"
      using w by simp
    then have "extract_member fs dest m = Inr (AList.update t (File (snd m)) fs1)"
      using False nd mk by (simp add: extract_member_def Let_def t_def)
    then show ?thesis using eff unfolding t_def by blast
  qed
qed

lemma extract_member_step:
  assumes nd: "\<not> endswith (fst m) ''/''"
    and ne: "comps (member_target dest (fst m)) \<noteq> []"
    and nf: "\<forall>q x. below q (member_target dest (fst m)) \<longrightarrow> lookup fs q \<noteq> Some (File x)"
    and ndr: "lookup fs (member_target dest (fst m)) \<noteq> Some Dir"
  shows "\<exists>fs2. extract_member fs dest m = Inr fs2 \<and>
           (\<forall>q data. lookup fs2 q = Some (File data) \<longleftrightarrow>
              (q = member_target dest (fst m) \<and> data = snd m) \<or>
              (q \<noteq> member_target dest (fst m) \<and> lookup fs q = Some (File data))) \<and>
           (\<forall>q. lookup fs2 q = Some Dir \<longrightarrow>
              lookup fs q = Some Dir \<or> below q (member_target dest (fst m)))"
proof -
  define t where "t = member_target dest (fst m)"
  obtain fs1 where em: "extract_member fs dest m = Inr (AList.update t (File (snd m)) fs1)"
    and eff: "\<And>q. lookup fs1 q = lookup fs q \<or>
         (lookup fs q = None \<and> lookup fs1 q = Some Dir \<and> below q t)"
    using extract_member_file[OF nd ne nf ndr] unfolding t_def by blast
  define fs2 where "fs2 = AList.update t (File (snd m)) fs1"
  have l2: "\<And>q. lookup fs2 q =
      (if comps q = [] then Some Dir else if q = t then Some (File (snd m)) else lookup fs1 q)"
    by (simp add: fs2_def lookup_update)
  have tm: "comps t \<noteq> []" using ne by (simp add: t_def)
  have f2: "\<And>q data. lookup fs2 q = Some (File data) \<longleftrightarrow>
      (q = t \<and> data = snd m) \<or> (q \<noteq> t \<and> lookup fs q = Some (File data))"
  proof -
    fix q data
    show "lookup fs2 q = Some (File data) \<longleftrightarrow>
      (q = t \<and> data = snd m) \<or> (q \<noteq> t \<and> lookup fs q = Some (File data))"
    proof (cases "comps q = []")
      case True
      then have "lookup fs2 q = Some Dir" "lookup fs q = Some Dir" "q \<noteq> t"
        using tm by (auto simp: lookup_root)
      then show ?thesis by simp
    next
      case False
      show ?thesis
      proof (cases "q = t")
        case True
        then show ?thesis using l2[of q] False by auto
      next
        case nt: False
        then have "lookup fs2 q = lookup fs1 q" using l2[of q] False by simp
        then show ?thesis using eff[of q] nt by auto
      qed
    qed
  qed
  have d2: "\<And>q. lookup fs2 q = Some Dir \<Longrightarrow> lookup fs q = Some Dir \<or> below q t"
  proof -
    fix q assume a: "lookup fs2 q = Some Dir"
    show "lookup fs q = Some Dir \<or> below q t"
    proof (cases "comps q = []")
      case True
      then show ?thesis by (simp add: lookup_root)
    next
      case False
      then have "q \<noteq> t" using a l2[of q] by auto
      then have "lookup fs1 q = Some Dir" using a l2[of q] False by simp
      then show ?thesis using eff[of q] by auto
    qed
  qed
  have "extract_member fs dest m = Inr fs2" using em by (simp add: fs2_def)
  then show ?thesis using f2 d2 unfolding t_def by blast
qed

lemma merge_targets:
  assumes fn: "\<And>m'. m' \<in> set rest \<Longrightarrow> T m' = T m \<Longrightarrow> snd m' = snd m"
    and c: "L \<longleftrightarrow> ((\<exists>m' \<in> set rest. q = T m' \<and> data = snd m') \<or>
               ((\<forall>m' \<in> set rest. q \<noteq> T m') \<and> G))"
    and f: "G \<longleftrightarrow> (q = T m \<and> data = snd m) \<or> (q \<noteq> T m \<and> F)"
  shows "L \<longleftrightarrow> ((\<exists>m' \<in> set (m # rest). q = T m' \<and> data = snd m') \<or>
               ((\<forall>m' \<in> set (m # rest). q \<noteq> T m') \<and> F))"
proof -
  define A where "A = (\<exists>m' \<in> set rest. q = T m' \<and> data = snd m')"
  define B where "B = (\<forall>m' \<in> set rest. q \<noteq> T m')"
  define E where "E = (q = T m)"
  define D where "D = (data = snd m)"
  have e1: "(\<exists>m' \<in> set (m # rest). q = T m' \<and> data = snd m') \<longleftrightarrow> (E \<and> D) \<or> A"
    unfolding A_def E_def D_def by simp
  have e2: "(\<forall>m' \<in> set (m # rest). q \<noteq> T m') \<longleftrightarrow> \<not> E \<and> B"
    unfolding B_def E_def by simp
  have k: "A" if e: "E" and d: "D" and nb: "\<not> B"
  proof -
    obtain m' where m': "m' \<in> set rest" "q = T m'" using nb unfolding B_def by blast
    have "T m' = T m" using m'(2) e unfolding E_def by simp
    then have "snd m' = snd m" using fn m'(1) by blast
    then have "data = snd m'" using d unfolding D_def by simp
    then show ?thesis unfolding A_def using m' by blast
  qed
  have ab: "\<not> (A \<and> B)" unfolding A_def B_def by blast
  have c': "L \<longleftrightarrow> A \<or> (B \<and> G)" using c unfolding A_def B_def .
  have f': "G \<longleftrightarrow> (E \<and> D) \<or> (\<not> E \<and> F)" using f unfolding E_def D_def .
  show ?thesis unfolding e1 e2 c' f' using k ab by blast
qed

lemma extractall_files:
  assumes "\<forall>m \<in> set zf. \<not> endswith (fst m) ''/'' \<and> comps (member_target dest (fst m)) \<noteq> []"
    and "\<forall>m1 \<in> set zf. \<forall>m2 \<in> set zf.
           \<not> below (member_target dest (fst m1)) (member_target dest (fst m2)) \<and>
           (member_target dest (fst m1) = member_target dest (fst m2) \<longrightarrow> snd m1 = snd m2)"
    and "\<forall>m \<in> set zf. lookup fs (member_target dest (fst m)) \<noteq> Some Dir \<and>
           (\<forall>q x. below q (member_target dest (fst m)) \<longrightarrow> lookup fs q \<noteq> Some (File x))"
  shows "\<exists>fs'. extractall fs dest zf = Inr fs' \<and>
           (\<forall>q data. lookup fs' q = Some (File data) \<longleftrightarrow>
              ((\<exists>m \<in> set zf. q = member_target dest (fst m) \<and> data = snd m) \<or>
               ((\<forall>m \<in> set zf. q \<noteq> member_target dest (fst m)) \<and> lookup fs q = Some (File data))))"
  using assms
proof (induction zf arbitrary: fs)
  case Nil
  show ?case by simp
next
  case (Cons m rest)
  have mh: "m \<in> set (m # rest)" by simp
  have mt: "m' \<in> set (m # rest)" if "m' \<in> set rest" for m' using that by simp
  note P1 = Cons.prems(1)[rule_format]
  note P2 = Cons.prems(2)[rule_format]
  note P3 = Cons.prems(3)[rule_format]
  have m1: "\<not> endswith (fst m) ''/''" "comps (member_target dest (fst m)) \<noteq> []"
    using P1[OF mh] by blast+
  have m3: "lookup fs (member_target dest (fst m)) \<noteq> Some Dir"
    "\<forall>q x. below q (member_target dest (fst m)) \<longrightarrow> lookup fs q \<noteq> Some (File x)"
    using Cons.prems(3) mh by blast+
  have pf1: "\<not> below (member_target dest (fst m)) (member_target dest (fst m'))"
    and pf2: "\<not> below (member_target dest (fst m')) (member_target dest (fst m))"
    if "m' \<in> set rest" for m'
    using P2[OF mh mt[OF that]] P2[OF mt[OF that] mh] by blast+
  have fn: "snd m' = snd m"
    if "m' \<in> set rest" "member_target dest (fst m') = member_target dest (fst m)" for m'
    using P2[OF mt[OF that(1)] mh] that(2) by blast
  have r3a: "lookup fs (member_target dest (fst m')) \<noteq> Some Dir" if "m' \<in> set rest" for m'
    using P3[OF mt[OF that]] by blast
  have r3b: "lookup fs q \<noteq> Some (File x)"
    if "m' \<in> set rest" "below q (member_target dest (fst m'))" for m' q x
    using Cons.prems(3) mt[OF that(1)] that(2) by blast
  from extract_member_step[OF m1 m3(2) m3(1)]
  obtain fs2 where em: "extract_member fs dest m = Inr fs2"
    and f2a: "\<forall>q data. lookup fs2 q = Some (File data) \<longleftrightarrow>
              (q = member_target dest (fst m) \<and> data = snd m) \<or>
              (q \<noteq> member_target dest (fst m) \<and> lookup fs q = Some (File data))"
    and d2a: "\<forall>q. lookup fs2 q = Some Dir \<longrightarrow>
              lookup fs q = Some Dir \<or> below q (member_target dest (fst m))"
    by (elim exE conjE)
  note f2 = f2a[THEN spec, THEN spec]
  note d2 = d2a[THEN spec, THEN mp]
  have q1: "\<forall>m \<in> set rest. \<not> endswith (fst m) ''/'' \<and> comps (member_target dest (fst m)) \<noteq> []"
    using P1 mt by blast
  have q2: "\<forall>m1 \<in> set rest. \<forall>m2 \<in> set rest.
           \<not> below (member_target dest (fst m1)) (member_target dest (fst m2)) \<and>
           (member_target dest (fst m1) = member_target dest (fst m2) \<longrightarrow> snd m1 = snd m2)"
  proof (intro ballI)
    fix m1 m2 assume "m1 \<in> set rest" "m2 \<in> set rest"
    then show "\<not> below (member_target dest (fst m1)) (member_target dest (fst m2)) \<and>
           (member_target dest (fst m1) = member_target dest (fst m2) \<longrightarrow> snd m1 = snd m2)"
      using Cons.prems(2)[THEN bspec, THEN bspec, of m1 m2] mt by blast
  qed
  have q3: "\<forall>m' \<in> set rest. lookup fs2 (member_target dest (fst m')) \<noteq> Some Dir \<and>
           (\<forall>q x. below q (member_target dest (fst m')) \<longrightarrow> lookup fs2 q \<noteq> Some (File x))"
  proof (intro ballI conjI allI impI)
    fix m' assume m': "m' \<in> set rest"
    show "lookup fs2 (member_target dest (fst m')) \<noteq> Some Dir"
    proof
      assume "lookup fs2 (member_target dest (fst m')) = Some Dir"
      from d2[OF this] show False using r3a[OF m'] pf2[OF m'] by blast
    qed
  next
    fix m' q x assume m': "m' \<in> set rest" and bq: "below q (member_target dest (fst m'))"
    have "q \<noteq> member_target dest (fst m)" using bq pf1[OF m'] by blast
    moreover have "lookup fs q \<noteq> Some (File x)" using m' bq by (rule r3b)
    ultimately show "lookup fs2 q \<noteq> Some (File x)" using f2[of q x] by blast
  qed
  from Cons.IH[OF q1 q2 q3] obtain fs' where r: "extractall fs2 dest rest = Inr fs'"
    and c0: "\<forall>q data. lookup fs' q = Some (File data) \<longleftrightarrow>
              ((\<exists>m \<in> set rest. q = member_target dest (fst m) \<and> data = snd m) \<or>
               ((\<forall>m \<in> set rest. q \<noteq> member_target dest (fst m)) \<and> lookup fs2 q = Some (File data)))"
    by (elim exE conjE)
  note c = c0[THEN spec, THEN spec]
  have fin: "lookup fs' q = Some (File data) \<longleftrightarrow>
      ((\<exists>m' \<in> set (m # rest). q = member_target dest (fst m') \<and> data = snd m') \<or>
       ((\<forall>m' \<in> set (m # rest). q \<noteq> member_target dest (fst m')) \<and>
        lookup fs q = Some (File data)))" for q data
    by (rule merge_targets[where T = "\<lambda>m. member_target dest (fst m)"
          and G = "lookup fs2 q = Some (File data)"])
       (rule fn, assumption, assumption, rule c, rule f2)
  have ex: "extractall fs dest (m # rest) = Inr fs'" using em r by simp
  show ?case
  proof (intro exI conjI allI)
    show "extractall fs dest (m # rest) = Inr fs'" by (rule ex)
  next
    fix q data
    show "lookup fs' q = Some (File data) \<longleftrightarrow>
      ((\<exists>m' \<in> set (m # rest). q = member_target dest (fst m') \<and> data = snd m') \<or>
       ((\<forall>m' \<in> set (m # rest). q \<noteq> member_target dest (fst m')) \<and>
        lookup fs q = Some (File data)))"
      by (rule fin)
  qed
qed

lemma fresh_below:
  "\<forall>e \<in> set fs. \<not> below dest (fst e) \<Longrightarrow> below dest q \<Longrightarrow> lookup fs q = None"
proof (rule ccontr)
  assume fr: "\<forall>e \<in> set fs. \<not> below dest (fst e)" and b: "below dest q"
    and "lookup fs q \<noteq> None"
  then obtain n where n: "lookup fs q = Some n" by blast
  have "comps q \<noteq> []" using b by (auto simp: below_def)
  then have "(q, n) \<in> set fs" using n lookup_entry by blast
  then show False using fr b by force
qed

lemma below_not_on_way: "below d q \<Longrightarrow> \<not> on_way q d"
  by (auto simp: below_def on_way_def strict_prefix_def)

lemma dest_area_no_files:
  assumes t: "tree_shaped fs" and fr: "\<forall>e \<in> set fs. \<not> below dest (fst e)"
    and mk: "mkdir_parents fs dest = Inr fs0"
    and q: "on_way q dest \<or> below dest q"
  shows "lookup fs0 q \<noteq> Some (File x) \<and> (below dest q \<longrightarrow> lookup fs0 q = None)"
proof (cases "on_way q dest")
  case True
  then have "is_dir fs0 q" using t mk mkdir_parents_way_dirs by blast
  then show ?thesis using True below_not_on_way by (auto simp: is_dir_def)
next
  case False
  then have b: "below dest q" using q by blast
  then have "lookup fs q = None" using fr fresh_below by blast
  then have "lookup fs0 q = None" using mkdir_parents_effect[OF mk, of q] False by auto
  then show ?thesis by simp
qed

lemma below_append:
  "below q (Path a (ds @ rel)) \<Longrightarrow>
   (absolute q = a \<and> prefix (comps q) ds) \<or> (\<exists>r. r \<noteq> [] \<and> q = Path a (ds @ r))"
proof -
  assume b: "below q (Path a (ds @ rel))"
  then have a: "absolute q = a" and p: "prefix (comps q) (ds @ rel)"
    by (auto simp: below_def strict_prefix_def)
  from p consider "prefix (comps q) ds" | us where "comps q = ds @ us" "prefix us rel"
    by (auto simp: prefix_append)
  then show ?thesis
  proof cases
    case 1
    then show ?thesis using a by simp
  next
    case 2
    show ?thesis
    proof (cases "us = []")
      case True
      then show ?thesis using 2 a by simp
    next
      case False
      have "q = Path a (ds @ us)" using 2(1) a by (cases q) simp
      then show ?thesis using False by blast
    qed
  qed
qed

lemma below_under: "r \<noteq> [] \<Longrightarrow> below d (Path (absolute d) (comps d @ r))"
  by (auto simp: below_def strict_prefix_def)

lemma walk_member:
  assumes t: "tree_shaped fs" and d: "is_dir fs folder" and e: "e \<in> set (walk_files fs folder)"
  shows "\<exists>rel. rel \<noteq> [] \<and> list_all valid_name rel \<and>
           drop (length (comps folder)) (comps (fst e)) = rel \<and>
           fst e = Path (absolute folder) (comps folder @ rel) \<and>
           lookup fs (fst e) = Some (File (snd e))"
proof -
  obtain p data where pd: "e = (p, data)" by (cases e)
  have m: "(p, File data) \<in> set fs" and b: "below folder p"
    using e pd walk_files_set[OF t d] by auto
  obtain rel where r: "comps p = comps folder @ rel" "rel \<noteq> []"
    using b by (auto simp: below_def strict_prefix_def prefix_def)
  have "list_all valid_name (comps p)" using t m by (auto simp: tree_shaped_def list_all_iff)
  then have "list_all valid_name rel" using r by simp
  moreover have "p = Path (absolute folder) (comps folder @ rel)"
    using r b by (cases p) (simp add: below_def)
  moreover have "lookup fs p = Some (File data)" using t m tree_entry_lookup by blast
  ultimately show ?thesis using r pd by simp
qed

lemma walk_has_file:
  assumes t: "tree_shaped fs" and d: "is_dir fs folder"
    and l: "lookup fs (Path (absolute folder) (comps folder @ rel)) = Some (File data)"
  shows "(Path (absolute folder) (comps folder @ rel), data) \<in> set (walk_files fs folder)"
proof -
  have "rel \<noteq> []"
  proof
    assume "rel = []"
    then have "Path (absolute folder) (comps folder @ rel) = folder" by simp
    then show False using l d by (simp add: is_dir_def)
  qed
  then have b: "below folder (Path (absolute folder) (comps folder @ rel))" by (rule below_under)
  have "comps (Path (absolute folder) (comps folder @ rel)) \<noteq> []" using \<open>rel \<noteq> []\<close> by simp
  then have "(Path (absolute folder) (comps folder @ rel), File data) \<in> set fs"
    using l lookup_entry by blast
  then show ?thesis using b walk_files_set[OF t d] by blast
qed

text \<open>
  Claim C8. Zipping an output folder with \<open>zip_folder\<close> and extracting the archive
  with \<open>extract_ziplike\<close> into a destination that holds nothing yet gives back the
  same files: both calls return, and for every relative path \<open>rel\<close> and all bytes
  \<open>data\<close>, the destination holds a file \<open>rel\<close> with the bytes \<open>data\<close> exactly when
  the folder does. The file system is a tree of valid names, the folder is a directory,
  the destination can be created, and the reader of the container format returns the
  members that its writer was given. Directories without files are not archived, so they
  are not recreated; they are no part of the file set.
\<close>

theorem zip_folder_extract_ziplike_roundtrip:
  assumes t: "tree_shaped fs" and d: "is_dir fs folder"
    and fr: "\<forall>e \<in> set fs. \<not> below dest (fst e)"
    and mk: "mkdir_parents fs dest = Inr fs0"
    and codec: "\<forall>zf. zip_write_all folder (walk_files fs folder) [] = Inr zf \<longrightarrow>
                  unzip (zipper zf) = Some zf"
  shows "\<exists>bytes fs'. zip_folder zipper fs folder = Inr bytes \<and>
           extract_ziplike unzip bytes fs dest = Inr fs' \<and>
           (\<forall>rel data.
              lookup fs' (Path (absolute dest) (comps dest @ rel)) = Some (File data) \<longleftrightarrow>
              lookup fs (Path (absolute folder) (comps folder @ rel)) = Some (File data))"
proof -
  define k where "k = length (comps folder)"
  define g where "g = (\<lambda>e :: path \<times> string. (as_posix (Path False (drop k (comps (fst e)))), snd e))"
  define W where "W = walk_files fs folder"
  define zf where "zf = map g W"
  have wb: "\<forall>e \<in> set W. below folder (fst e)"
    using walk_files_set[OF t d] by (auto simp: W_def)
  have zw: "zip_write_all folder W [] = Inr zf"
    using zip_write_all_below[OF wb, of "[]"] by (simp add: zf_def g_def k_def)
  have zfold: "zip_folder zipper fs folder = Inr (zipper zf)"
    using zw by (simp add: zip_folder_def W_def)
  have uz: "unzip (zipper zf) = Some zf" using codec zw by (simp add: W_def)
  have ez: "extract_ziplike unzip (zipper zf) fs dest = extractall fs0 dest zf"
    using mk uz by (simp add: extract_ziplike_def)
  have mem: "\<exists>e rel. e \<in> set W \<and> rel \<noteq> [] \<and>
      fst e = Path (absolute folder) (comps folder @ rel) \<and>
      lookup fs (fst e) = Some (File (snd e)) \<and> snd m = snd e \<and>
      member_target dest (fst m) = Path (absolute dest) (comps dest @ rel) \<and>
      \<not> endswith (fst m) ''/''" if mz: "m \<in> set zf" for m
  proof -
    obtain e where e: "e \<in> set W" "m = g e" using mz by (auto simp: zf_def)
    have e': "e \<in> set (walk_files fs folder)" using e(1) by (simp add: W_def)
    obtain rel where r: "rel \<noteq> []" "list_all valid_name rel"
      "drop (length (comps folder)) (comps (fst e)) = rel"
      "fst e = Path (absolute folder) (comps folder @ rel)"
      "lookup fs (fst e) = Some (File (snd e))"
      using walk_member[OF t d e'] by blast
    have n: "fst m = as_posix (Path False rel)" using e(2) r(3) by (simp add: g_def k_def)
    have "member_target dest (fst m) = Path (absolute dest) (comps dest @ rel)"
      unfolding n using r(1,2) by (rule member_target_valid)
    moreover have "\<not> endswith (fst m) ''/''"
      unfolding n using r(1,2) by (rule valid_names_not_dir_member)
    moreover have "snd m = snd e" using e(2) by (simp add: g_def)
    ultimately show ?thesis using e(1) r(1,4,5) by blast
  qed
  have a: "\<forall>m \<in> set zf. \<not> endswith (fst m) ''/'' \<and> comps (member_target dest (fst m)) \<noteq> []"
  proof
    fix m assume "m \<in> set zf"
    from mem[OF this] obtain rel where "rel \<noteq> []"
      "member_target dest (fst m) = Path (absolute dest) (comps dest @ rel)"
      "\<not> endswith (fst m) ''/''" by blast
    then show "\<not> endswith (fst m) ''/'' \<and> comps (member_target dest (fst m)) \<noteq> []" by simp
  qed
  have b: "\<forall>m1 \<in> set zf. \<forall>m2 \<in> set zf.
           \<not> below (member_target dest (fst m1)) (member_target dest (fst m2)) \<and>
           (member_target dest (fst m1) = member_target dest (fst m2) \<longrightarrow> snd m1 = snd m2)"
  proof (intro ballI)
    fix m1 m2 assume "m1 \<in> set zf" "m2 \<in> set zf"
    from mem[OF this(1)] obtain e1 r1 where 1:
      "fst e1 = Path (absolute folder) (comps folder @ r1)"
      "lookup fs (fst e1) = Some (File (snd e1))" "snd m1 = snd e1"
      "member_target dest (fst m1) = Path (absolute dest) (comps dest @ r1)" by blast
    from mem[OF \<open>m2 \<in> set zf\<close>] obtain e2 r2 where 2:
      "fst e2 = Path (absolute folder) (comps folder @ r2)"
      "lookup fs (fst e2) = Some (File (snd e2))" "snd m2 = snd e2"
      "member_target dest (fst m2) = Path (absolute dest) (comps dest @ r2)" by blast
    have nb: "\<not> below (member_target dest (fst m1)) (member_target dest (fst m2))"
    proof
      assume "below (member_target dest (fst m1)) (member_target dest (fst m2))"
      then have "strict_prefix r1 r2" unfolding 1(4) 2(4) by (simp add: below_def strict_prefix_def)
      then have sp: "strict_prefix (comps (fst e1)) (comps (fst e2))"
        unfolding 1(1) 2(1) by (simp add: strict_prefix_def)
      have "lookup fs (fst e2) \<noteq> None" using 2(2) by simp
      moreover have "absolute (fst e1) = absolute (fst e2)" unfolding 1(1) 2(1) by simp
      ultimately have "is_dir fs (fst e1)" using t sp tree_ancestors_dirs by blast
      then show False using 1(2) by (simp add: is_dir_def)
    qed
    have eq: "snd m1 = snd m2" if "member_target dest (fst m1) = member_target dest (fst m2)"
    proof -
      have "r1 = r2" using that unfolding 1(4) 2(4) by simp
      then have "fst e1 = fst e2" using 1(1) 2(1) by simp
      then have "snd e1 = snd e2" using 1(2) 2(2) by simp
      then show ?thesis using 1(3) 2(3) by simp
    qed
    show "\<not> below (member_target dest (fst m1)) (member_target dest (fst m2)) \<and>
           (member_target dest (fst m1) = member_target dest (fst m2) \<longrightarrow> snd m1 = snd m2)"
      using nb eq by blast
  qed
  have c: "\<forall>m \<in> set zf. lookup fs0 (member_target dest (fst m)) \<noteq> Some Dir \<and>
           (\<forall>q x. below q (member_target dest (fst m)) \<longrightarrow> lookup fs0 q \<noteq> Some (File x))"
  proof (intro ballI conjI allI impI)
    fix m assume "m \<in> set zf"
    from mem[OF this] obtain rel where r: "rel \<noteq> []"
      "member_target dest (fst m) = Path (absolute dest) (comps dest @ rel)" by blast
    have "below dest (member_target dest (fst m))" unfolding r(2) using r(1) by (rule below_under)
    then have "lookup fs0 (member_target dest (fst m)) = None"
      using dest_area_no_files[OF t fr mk] by blast
    then show "lookup fs0 (member_target dest (fst m)) \<noteq> Some Dir" by simp
  next
    fix m q x assume "m \<in> set zf" and bq: "below q (member_target dest (fst m))"
    from mem[OF this(1)] obtain rel where r: "rel \<noteq> []"
      "member_target dest (fst m) = Path (absolute dest) (comps dest @ rel)" by blast
    from below_append[OF bq[unfolded r(2)]]
    have "on_way q dest \<or> below dest q"
    proof
      assume "absolute q = absolute dest \<and> prefix (comps q) (comps dest)"
      then show ?thesis by (simp add: on_way_def)
    next
      assume "\<exists>r. r \<noteq> [] \<and> q = Path (absolute dest) (comps dest @ r)"
      then show ?thesis using below_under by blast
    qed
    then show "lookup fs0 q \<noteq> Some (File x)" using dest_area_no_files[OF t fr mk] by blast
  qed
  from extractall_files[OF a b c] obtain fs' where ex: "extractall fs0 dest zf = Inr fs'"
    and ch0: "\<forall>q data. lookup fs' q = Some (File data) \<longleftrightarrow>
              ((\<exists>m \<in> set zf. q = member_target dest (fst m) \<and> data = snd m) \<or>
               ((\<forall>m \<in> set zf. q \<noteq> member_target dest (fst m)) \<and> lookup fs0 q = Some (File data)))"
    by (elim exE conjE)
  note ch = ch0[THEN spec, THEN spec]
  have fin: "lookup fs' (Path (absolute dest) (comps dest @ rel)) = Some (File data) \<longleftrightarrow>
      lookup fs (Path (absolute folder) (comps folder @ rel)) = Some (File data)" for rel data
  proof -
    define q where "q = Path (absolute dest) (comps dest @ rel)"
    have "on_way q dest \<or> below dest q"
    proof (cases "rel = []")
      case True
      then show ?thesis by (simp add: q_def on_way_def)
    next
      case False
      then show ?thesis unfolding q_def using below_under by blast
    qed
    then have nf: "lookup fs0 q \<noteq> Some (File data)"
      using dest_area_no_files[OF t fr mk] by blast
    have s1: "lookup fs' q = Some (File data) \<longleftrightarrow>
        (\<exists>m \<in> set zf. q = member_target dest (fst m) \<and> data = snd m)"
      using ch[of q data] nf by blast
    have s2: "(\<exists>m \<in> set zf. q = member_target dest (fst m) \<and> data = snd m) \<longleftrightarrow>
        lookup fs (Path (absolute folder) (comps folder @ rel)) = Some (File data)"
    proof
      assume "\<exists>m \<in> set zf. q = member_target dest (fst m) \<and> data = snd m"
      then obtain m where m: "m \<in> set zf" "q = member_target dest (fst m)" "data = snd m" by blast
      from mem[OF m(1)] obtain e r where 1:
        "fst e = Path (absolute folder) (comps folder @ r)"
        "lookup fs (fst e) = Some (File (snd e))" "snd m = snd e"
        "member_target dest (fst m) = Path (absolute dest) (comps dest @ r)" by blast
      have "rel = r" using m(2) 1(4) by (simp add: q_def)
      then show "lookup fs (Path (absolute folder) (comps folder @ rel)) = Some (File data)"
        using 1(1,2,3) m(3) by simp
    next
      assume l: "lookup fs (Path (absolute folder) (comps folder @ rel)) = Some (File data)"
      define e where "e = (Path (absolute folder) (comps folder @ rel), data)"
      have ew: "e \<in> set W" using walk_has_file[OF t d l] by (simp add: e_def W_def)
      then have gm: "g e \<in> set zf" by (simp add: zf_def)
      have rne: "rel \<noteq> []"
      proof
        assume "rel = []"
        then have "Path (absolute folder) (comps folder @ rel) = folder" by simp
        then show False using l d by (simp add: is_dir_def)
      qed
      have v: "list_all valid_name rel"
        using walk_member[OF t d ew[unfolded W_def]] by (auto simp: e_def)
      have "fst (g e) = as_posix (Path False rel)" by (simp add: g_def e_def k_def)
      then have "member_target dest (fst (g e)) = q"
        using member_target_valid[OF rne v, of dest] by (simp add: q_def)
      moreover have "snd (g e) = data" by (simp add: g_def e_def)
      ultimately show "\<exists>m \<in> set zf. q = member_target dest (fst m) \<and> data = snd m"
        using gm by (intro bexI[of _ "g e"]) simp_all
    qed
    show ?thesis using s1 s2 unfolding q_def by simp
  qed
  have ez': "extract_ziplike unzip (zipper zf) fs dest = Inr fs'" using ez ex by simp
  show ?thesis
  proof (intro exI conjI allI)
    show "zip_folder zipper fs folder = Inr (zipper zf)" by (rule zfold)
    show "extract_ziplike unzip (zipper zf) fs dest = Inr fs'" by (rule ez')
  next
    fix rel data
    show "lookup fs' (Path (absolute dest) (comps dest @ rel)) = Some (File data) \<longleftrightarrow>
      lookup fs (Path (absolute folder) (comps folder @ rel)) = Some (File data)" by (rule fin)
  qed
qed

text \<open>
  A tree with a file at the top, a file in a subfolder and an empty folder: the archive
  has the two members \<open>top.txt\<close> and \<open>A/x.sql\<close>, and the extraction recreates both
  files with their bytes.
\<close>

theorem zip_folder_extract_ziplike_roundtrip_witness:
  "tree_shaped [(Path True [''out''], Dir), (Path True [''out'', ''top.txt''], File ''t''),
                (Path True [''out'', ''A''], Dir), (Path True [''out'', ''A'', ''x.sql''], File ''s1''),
                (Path True [''out'', ''empty''], Dir)]
   \<and> is_dir [(Path True [''out''], Dir), (Path True [''out'', ''top.txt''], File ''t''),
              (Path True [''out'', ''A''], Dir), (Path True [''out'', ''A'', ''x.sql''], File ''s1''),
              (Path True [''out'', ''empty''], Dir)] (Path True [''out''])
   \<and> list_all (\<lambda>e. \<not> below (Path True [''back'']) (fst e))
         [(Path True [''out''], Dir), (Path True [''out'', ''top.txt''], File ''t''),
          (Path True [''out'', ''A''], Dir), (Path True [''out'', ''A'', ''x.sql''], File ''s1''),
          (Path True [''out'', ''empty''], Dir)]
   \<and> mkdir_parents
         [(Path True [''out''], Dir), (Path True [''out'', ''top.txt''], File ''t''),
          (Path True [''out'', ''A''], Dir), (Path True [''out'', ''A'', ''x.sql''], File ''s1''),
          (Path True [''out'', ''empty''], Dir)] (Path True [''back''])
       = Inr ([(Path True [''out''], Dir), (Path True [''out'', ''top.txt''], File ''t''),
               (Path True [''out'', ''A''], Dir), (Path True [''out'', ''A'', ''x.sql''], File ''s1''),
               (Path True [''out'', ''empty''], Dir)] @ [(Path True [''back''], Dir)])
   \<and> zip_write_all (Path True [''out''])
         (walk_files [(Path True [''out''], Dir), (Path True [''out'', ''top.txt''], File ''t''),
                      (Path True [''out'', ''A''], Dir), (Path True [''out'', ''A'', ''x.sql''], File ''s1''),
                      (Path True [''out'', ''empty''], Dir)] (Path True [''out''])) []
       = Inr [(''top.txt'', ''t''), (''A/x.sql'', ''s1'')]
   \<and> (\<exists>bytes fs'.
         zip_folder (\<lambda>zf. ''PK'')
           [(Path True [''out''], Dir), (Path True [''out'', ''top.txt''], File ''t''),
            (Path True [''out'', ''A''], Dir), (Path True [''out'', ''A'', ''x.sql''], File ''s1''),
            (Path True [''out'', ''empty''], Dir)] (Path True [''out'']) = Inr bytes
       \<and> extract_ziplike (\<lambda>b. Some [(''top.txt'', ''t''), (''A/x.sql'', ''s1'')]) bytes
           [(Path True [''out''], Dir), (Path True [''out'', ''top.txt''], File ''t''),
            (Path True [''out'', ''A''], Dir), (Path True [''out'', ''A'', ''x.sql''], File ''s1''),
            (Path True [''out'', ''empty''], Dir)] (Path True [''back'']) = Inr fs'
       \<and> lookup fs' (Path True [''back'', ''top.txt'']) = Some (File ''t'')
       \<and> lookup fs' (Path True [''back'', ''A'', ''x.sql'']) = Some (File ''s1'')
       \<and> lookup fs' (Path True [''back'', ''empty'']) \<noteq> Some (File ''t''))"
proof -
  let ?fs = "[(Path True [''out''], Dir), (Path True [''out'', ''top.txt''], File ''t''),
              (Path True [''out'', ''A''], Dir), (Path True [''out'', ''A'', ''x.sql''], File ''s1''),
              (Path True [''out'', ''empty''], Dir)]"
  let ?folder = "Path True [''out'']" and ?dest = "Path True [''back'']"
  let ?members = "[(''top.txt'', ''t''), (''A/x.sql'', ''s1'')]"
  have h1: "tree_shaped ?fs" by code_simp
  have h2: "is_dir ?fs ?folder" by code_simp
  have h3: "list_all (\<lambda>e. \<not> below ?dest (fst e)) ?fs" by code_simp
  have h3': "\<forall>e \<in> set ?fs. \<not> below ?dest (fst e)" using h3 unfolding list_all_iff .
  have h4: "mkdir_parents ?fs ?dest = Inr (?fs @ [(?dest, Dir)])" by code_simp
  have h5: "zip_write_all ?folder (walk_files ?fs ?folder) [] = Inr ?members" by code_simp
  have h5': "\<forall>zf. zip_write_all ?folder (walk_files ?fs ?folder) [] = Inr zf \<longrightarrow>
      (\<lambda>b. Some ?members) ((\<lambda>zf. ''PK'') zf) = Some zf"
    unfolding h5 by simp
  from zip_folder_extract_ziplike_roundtrip[where unzip = "\<lambda>b. Some ?members"
      and zipper = "\<lambda>zf. ''PK''", OF h1 h2 h3' h4 h5']
  obtain bytes fs' where z: "zip_folder (\<lambda>zf. ''PK'') ?fs ?folder = Inr bytes"
    and x: "extract_ziplike (\<lambda>b. Some ?members) bytes ?fs ?dest = Inr fs'"
    and r: "\<forall>rel data. lookup fs' (Path (absolute ?dest) (comps ?dest @ rel)) = Some (File data) \<longleftrightarrow>
              lookup ?fs (Path (absolute ?folder) (comps ?folder @ rel)) = Some (File data)"
    by (elim exE conjE)
  have l1: "lookup fs' (Path True [''back'', ''top.txt'']) = Some (File ''t'')"
    using r[THEN spec, THEN spec, of "[''top.txt'']" "''t''"] by (simp add: lookup_def)
  have l2: "lookup fs' (Path True [''back'', ''A'', ''x.sql'']) = Some (File ''s1'')"
    using r[THEN spec, THEN spec, of "[''A'', ''x.sql'']" "''s1''"] by (simp add: lookup_def)
  have l3: "lookup fs' (Path True [''back'', ''empty'']) \<noteq> Some (File ''t'')"
    using r[THEN spec, THEN spec, of "[''empty'']" "''t''"] by (simp add: lookup_def)
  show ?thesis using h1 h2 h3 h4 h5 z x l1 l2 l3 by blast
qed

end
